theory Spec2Isabelle
  imports Complex_Main "HOL-Library.Word" "HOL-Library.Signed_Division" "HOL-Library.Log_Nat"
begin

unbundle bit_operations_syntax

section \<open>The HX711 load-cell driver (HX711\_GSR) and its command program\<close>

text \<open>
  A shallow embedding of \<^verbatim>\<open>lib/HX711_GSR/HX711_GSR.cpp\<close>, its header and the command
  program \<^verbatim>\<open>loadCell.cpp\<close>. Every function of the source that touches the board
  (pins, clock, serial line) takes the world and returns it updated; a function that
  can block on the board, or divide by zero, returns an \<open>outcome\<close>.
\<close>

subsection \<open>Machine types\<close>

text \<open>
  \<^verbatim>\<open>uint8_t\<close>, \<^verbatim>\<open>int32_t\<close> and \<^verbatim>\<open>uint32_t\<close> are words; a signed word is read
  by \<open>sint\<close>, and signed arithmetic wraps around as the two's-complement machine does.
\<close>

type_synonym uint8_t = "8 word"

type_synonym int32_t = "32 word"

type_synonym uint32_t = "32 word"

text \<open>The constants of \<^verbatim>\<open>Arduino.h\<close> that the driver uses.\<close>

definition HIGH :: bool where
  "HIGH = True"

definition LOW :: bool where
  "LOW = False"

definition LSBFIRST :: uint8_t where
  "LSBFIRST = 0"

definition MSBFIRST :: uint8_t where
  "MSBFIRST = 1"

text \<open>\<^verbatim>\<open>enum class CHN_GAIN { NO_CHN, CHN_A_128, CHN_B_32, CHN_A_64 }\<close>\<close>

datatype CHN_GAIN = NO_CHN | CHN_A_128 | CHN_B_32 | CHN_A_64

text \<open>The cast \<^verbatim>\<open>(uint8_t)_chn_gain\<close>: the enumerators count from 0 in their order.\<close>

fun chn_gain_code :: "CHN_GAIN \<Rightarrow> uint8_t" where
  "chn_gain_code NO_CHN = 0"
| "chn_gain_code CHN_A_128 = 1"
| "chn_gain_code CHN_B_32 = 2"
| "chn_gain_code CHN_A_64 = 3"

subsection \<open>Floating point\<close>

text \<open>
  A \<^verbatim>\<open>double\<close> is a finite number, an infinity or a NaN. Each product and
  quotient is rounded to the format, as the machine does. Division by zero is as
  IEEE 754 has it: it does not trap, it yields an infinity, or NaN for \<open>0 / 0\<close>. The
  sign of a zero is not modelled: every divisor of the program is converted from an
  integer or is the literal \<open>10.0\<close>, so a zero divisor is always \<open>+0\<close>.
\<close>

datatype double = Finite real | PosInf | NegInf | NaN

fun is_finite :: "double \<Rightarrow> bool" where
  "is_finite (Finite x) = True"
| "is_finite PosInf = False"
| "is_finite NegInf = False"
| "is_finite NaN = False"

text \<open>The conversion \<^verbatim>\<open>(double)x\<close> of an \<^verbatim>\<open>int32_t\<close>.\<close>

definition double_of_int32 :: "int32_t \<Rightarrow> double" where
  "double_of_int32 x = Finite (real_of_int (sint x))"


text \<open>An infinity of the sign of \<open>x\<close> (\<open>x \<noteq> 0\<close>).\<close>

definition inf_of_sign :: "real \<Rightarrow> double" where
  "inf_of_sign x = (if 0 < x then PosInf else NegInf)"

text \<open>
  The binary exponent of a number that is not zero: the \<open>e\<close> with
  \<open>2^e \<le> \<bar>x\<bar> < 2^(e + 1)\<close>.
\<close>

definition exponent2 :: "real \<Rightarrow> int" where
  "exponent2 x =
     (if 1 \<le> \<bar>x\<bar> then bitlen \<lfloor>\<bar>x\<bar>\<rfloor> - 1 else - bitlen (\<lceil>1 / \<bar>x\<bar>\<rceil> - 1))"

text \<open>The nearest integer, a half going to the even neighbour.\<close>

definition round_to_even :: "real \<Rightarrow> int" where
  "round_to_even x =
     (let f = \<lfloor>x\<rfloor>; d = x - of_int f
      in if d < 1 / 2 then f else if 1 / 2 < d then f + 1 else if even f then f else f + 1)"

text \<open>
  Modelled from the spec: the format of \<^verbatim>\<open>double\<close>, which the source leaves to the
  platform. The specification has \<open>float64\<close>: IEEE 754 binary64, with 53
  significant bits, normal exponents from \<open>-1022\<close> to \<open>1023\<close>, subnormal numbers
  below, and overflow to an infinity. \<open>round_binary64\<close> is its rounding to nearest,
  ties to even: the result of every arithmetic operation is the rounding of the exact
  result. A compiler that makes \<^verbatim>\<open>double\<close> a 32-bit type rounds to 24 significant bits
  instead; the bounds proved below are those of the 64-bit format.
\<close>

definition round_binary64 :: "real \<Rightarrow> double" where
  "round_binary64 x =
     (if x = 0 then Finite 0
      else let q = 2 powi (max (exponent2 x) (- 1022) - 52);
               r = of_int (round_to_even (x / q)) * q
           in if 2 powi 1024 \<le> \<bar>r\<bar> then inf_of_sign x else Finite r)"

fun dmul :: "double \<Rightarrow> double \<Rightarrow> double" where
  "dmul (Finite x) (Finite y) = round_binary64 (x * y)"
| "dmul NaN _ = NaN"
| "dmul _ NaN = NaN"
| "dmul (Finite x) PosInf = (if x = 0 then NaN else inf_of_sign x)"
| "dmul (Finite x) NegInf = (if x = 0 then NaN else inf_of_sign (- x))"
| "dmul PosInf (Finite y) = (if y = 0 then NaN else inf_of_sign y)"
| "dmul NegInf (Finite y) = (if y = 0 then NaN else inf_of_sign (- y))"
| "dmul PosInf PosInf = PosInf"
| "dmul PosInf NegInf = NegInf"
| "dmul NegInf PosInf = NegInf"
| "dmul NegInf NegInf = PosInf"

fun ddiv :: "double \<Rightarrow> double \<Rightarrow> double" where
  "ddiv (Finite x) (Finite y) =
     (if y = 0 then (if x = 0 then NaN else inf_of_sign x) else round_binary64 (x / y))"
| "ddiv NaN _ = NaN"
| "ddiv _ NaN = NaN"
| "ddiv (Finite x) PosInf = Finite 0"
| "ddiv (Finite x) NegInf = Finite 0"
| "ddiv PosInf (Finite y) = (if 0 \<le> y then PosInf else NegInf)"
| "ddiv NegInf (Finite y) = (if 0 \<le> y then NegInf else PosInf)"
| "ddiv PosInf PosInf = NaN"
| "ddiv PosInf NegInf = NaN"
| "ddiv NegInf PosInf = NaN"
| "ddiv NegInf NegInf = NaN"

text \<open>
  \<^verbatim>\<open>round\<close> of \<^verbatim>\<open>math.h\<close>: the nearest integer, halfway cases away from zero.
  It is exact: the nearest integer of a binary64 number is a binary64 number. So are
  the conversion of an \<^verbatim>\<open>int32_t\<close>, the negation and \<^verbatim>\<open>fabs\<close>.
\<close>

definition round_real :: "real \<Rightarrow> real" where
  "round_real x = (if 0 \<le> x then real_of_int \<lfloor>x + 1 / 2\<rfloor> else - real_of_int \<lfloor>- x + 1 / 2\<rfloor>)"

fun dround :: "double \<Rightarrow> double" where
  "dround (Finite x) = Finite (round_real x)"
| "dround PosInf = PosInf"
| "dround NegInf = NegInf"
| "dround NaN = NaN"

text \<open>\<^verbatim>\<open>fabs\<close> of \<^verbatim>\<open>math.h\<close>.\<close>

fun fabs :: "double \<Rightarrow> double" where
  "fabs (Finite x) = Finite \<bar>x\<bar>"
| "fabs PosInf = PosInf"
| "fabs NegInf = PosInf"
| "fabs NaN = NaN"

text \<open>The comparison \<^verbatim>\<open>x > y\<close>: false as soon as an operand is NaN.\<close>

fun dgreater :: "double \<Rightarrow> double \<Rightarrow> bool" where
  "dgreater (Finite x) (Finite y) = (y < x)"
| "dgreater NaN _ = False"
| "dgreater _ NaN = False"
| "dgreater PosInf PosInf = False"
| "dgreater PosInf _ = True"
| "dgreater _ PosInf = False"
| "dgreater NegInf _ = False"
| "dgreater (Finite x) NegInf = True"

subsection \<open>The board\<close>

text \<open>
  What the program does to the board is a trace of events; what the board answers is
  scripted: \<open>pin_script\<close> holds the levels the successive calls of
  \<^verbatim>\<open>digitalRead\<close> will see, \<open>millis_script\<close> the values the successive calls of
  \<^verbatim>\<open>millis\<close> will return, and \<open>serial_in\<close> the integers the successive calls of
  \<^verbatim>\<open>Serial.parseInt\<close> will parse (\<^verbatim>\<open>Serial.available\<close> holds while one is left).
  A call that finds its script empty has the outcome \<open>OutOfInput\<close>: the scenario says
  nothing more, which for the busy-wait loops of the driver is the loop still spinning.
\<close>

text \<open>
  What \<^verbatim>\<open>Serial.print\<close> writes: a string, or the format string of a
  \<^verbatim>\<open>snprintf\<close> with its arguments (number formatting is not modelled).
\<close>

datatype print_arg = ArgInt int32_t | ArgDouble double

datatype event =
    PinMode uint8_t uint8_t
  | DigitalWrite uint8_t bool
  | DigitalRead uint8_t bool
  | DelayMicroseconds nat
  | Delay nat
  | SerialPrint string "print_arg list"

record world =
  pin_script :: "bool list"
  millis_script :: "uint32_t list"
  serial_in :: "int32_t list"
  trace :: "event list"

datatype 'a outcome = Returns 'a world | DivideFault world | OutOfInput

definition emit :: "event \<Rightarrow> world \<Rightarrow> world" where
  "emit e w = w\<lparr>trace := trace w @ [e]\<rparr>"

definition digitalWrite :: "uint8_t \<Rightarrow> bool \<Rightarrow> world \<Rightarrow> world" where
  "digitalWrite pin level w = emit (DigitalWrite pin level) w"

definition delayMicroseconds :: "nat \<Rightarrow> world \<Rightarrow> world" where
  "delayMicroseconds us w = emit (DelayMicroseconds us) w"

definition digitalRead :: "uint8_t \<Rightarrow> world \<Rightarrow> bool outcome" where
  "digitalRead pin w =
     (case pin_script w of
        [] \<Rightarrow> OutOfInput
      | level # rest \<Rightarrow> Returns level (emit (DigitalRead pin level) (w\<lparr>pin_script := rest\<rparr>)))"

definition millis :: "world \<Rightarrow> uint32_t outcome" where
  "millis w =
     (case millis_script w of
        [] \<Rightarrow> OutOfInput
      | t # rest \<Rightarrow> Returns t (w\<lparr>millis_script := rest\<rparr>))"

subsection \<open>The driver object\<close>

text \<open>
  The class \<^verbatim>\<open>HX711_GSR\<close>; the member \<^verbatim>\<open>_x\<close> is the field \<open>hx_x\<close>. A new object
  has channel A with gain 128, both codes 0, the reference weight \<open>-1\<close> and both
  coefficients \<open>0.0\<close>.
\<close>

record HX711_GSR =
  hx_pinDOUT :: uint8_t
  hx_pinPD_SCK :: uint8_t
  hx_gramsMaxLoad :: int32_t
  hx_chn_gain :: CHN_GAIN
  hx_v0 :: int32_t
  hx_vref :: int32_t
  hx_gramsRefWeight :: int32_t
  hx_b :: double
  hx_m :: double

definition new_HX711_GSR :: "uint8_t \<Rightarrow> uint8_t \<Rightarrow> int32_t \<Rightarrow> HX711_GSR" where
  "new_HX711_GSR pinDOUT pinPD_SCK gramsMaxLoad =
     \<lparr>hx_pinDOUT = pinDOUT, hx_pinPD_SCK = pinPD_SCK, hx_gramsMaxLoad = gramsMaxLoad,
      hx_chn_gain = CHN_A_128, hx_v0 = 0, hx_vref = 0, hx_gramsRefWeight = - 1,
      hx_b = Finite 0, hx_m = Finite 0\<rparr>"

text \<open>The body of the constructor: the pins are set up and the clock is pulsed.\<close>

definition INPUT :: uint8_t where
  "INPUT = 0"

definition OUTPUT :: uint8_t where
  "OUTPUT = 1"

definition HX711_GSR_init :: "HX711_GSR \<Rightarrow> world \<Rightarrow> world" where
  "HX711_GSR_init s w =
     digitalWrite (hx_pinPD_SCK s) LOW
       (delayMicroseconds 100
         (digitalWrite (hx_pinPD_SCK s) HIGH
           (emit (PinMode (hx_pinPD_SCK s) OUTPUT)
             (emit (PinMode (hx_pinDOUT s) INPUT) w))))"

subsection \<open>Reading a sample\<close>

text \<open>
  \<^verbatim>\<open>readByte\<close>: eight clock pulses, the data pin sampled while the clock is high. The
  loop counter is \<open>i\<close>; the source ORs the \<^verbatim>\<open>int\<close> \<open>digitalRead(..) << k\<close>, at most
  \<open>0x80\<close>, into the byte.
\<close>

function readByte_loop :: "uint8_t \<Rightarrow> uint8_t \<Rightarrow> uint8_t \<Rightarrow> nat \<Rightarrow> uint8_t \<Rightarrow> world \<Rightarrow> uint8_t outcome" where
  "readByte_loop dataPin clockPin bitOrder i val w =
     (if i < 8 then
        (case digitalRead dataPin (delayMicroseconds 2 (digitalWrite clockPin HIGH w)) of
           Returns level w1 \<Rightarrow>
             readByte_loop dataPin clockPin bitOrder (i + 1)
               (if bitOrder = LSBFIRST then val OR push_bit i (of_bool level)
                else val OR push_bit (7 - i) (of_bool level))
               (delayMicroseconds 2 (digitalWrite clockPin LOW w1))
         | DivideFault w1 \<Rightarrow> DivideFault w1
         | OutOfInput \<Rightarrow> OutOfInput)
      else Returns val w)"
  by pat_completeness auto

termination
  by (relation "measure (\<lambda>(dataPin, clockPin, bitOrder, i, val, w). 8 - i)") auto

declare readByte_loop.simps [simp del]

definition readByte :: "uint8_t \<Rightarrow> uint8_t \<Rightarrow> uint8_t \<Rightarrow> world \<Rightarrow> uint8_t outcome" where
  "readByte dataPin clockPin bitOrder w = readByte_loop dataPin clockPin bitOrder 0 0 w"

text \<open>\<^verbatim>\<open>while (digitalRead(_pinDOUT) != LOW) {}\<close>: each turn reads the pin once.\<close>

lemma digitalRead_shortens:
  "digitalRead pin w = Returns level w' \<Longrightarrow> length (pin_script w') < length (pin_script w)"
  by (auto simp: digitalRead_def emit_def split: list.splits)

function wait_ready :: "uint8_t \<Rightarrow> world \<Rightarrow> unit outcome" where
  "wait_ready pin w =
     (case digitalRead pin w of
        Returns level w1 \<Rightarrow> (if level \<noteq> LOW then wait_ready pin w1 else Returns () w1)
      | DivideFault w1 \<Rightarrow> DivideFault w1
      | OutOfInput \<Rightarrow> OutOfInput)"
  by pat_completeness auto

termination
  by (relation "measure (\<lambda>(pin, w). length (pin_script w))")
     (auto dest: digitalRead_shortens)

declare wait_ready.simps [simp del]

text \<open>
  \<^verbatim>\<open>for (uint8_t i = 0; i < 3; i++) bytes[2 - i] = readByte(..)\<close>: the array is a list
  of three bytes.
\<close>

function read_bytes_loop :: "HX711_GSR \<Rightarrow> nat \<Rightarrow> uint8_t list \<Rightarrow> world \<Rightarrow> uint8_t list outcome" where
  "read_bytes_loop s i bytes w =
     (if i < 3 then
        (case readByte (hx_pinDOUT s) (hx_pinPD_SCK s) MSBFIRST w of
           Returns byte w1 \<Rightarrow> read_bytes_loop s (i + 1) (bytes[2 - i := byte]) w1
         | DivideFault w1 \<Rightarrow> DivideFault w1
         | OutOfInput \<Rightarrow> OutOfInput)
      else Returns bytes w)"
  by pat_completeness auto

termination
  by (relation "measure (\<lambda>(s, i, bytes, w). 3 - i)") auto

declare read_bytes_loop.simps [simp del]

text \<open>
  \<^verbatim>\<open>for (uint8_t i = 0; i < (uint8_t)_chn_gain; i++)\<close>: one clock pulse a turn.
\<close>

function select_loop :: "HX711_GSR \<Rightarrow> nat \<Rightarrow> world \<Rightarrow> world" where
  "select_loop s i w =
     (if i < unat (chn_gain_code (hx_chn_gain s)) then
        select_loop s (i + 1)
          (delayMicroseconds 2 (digitalWrite (hx_pinPD_SCK s) LOW
            (delayMicroseconds 2 (digitalWrite (hx_pinPD_SCK s) HIGH w))))
      else w)"
  by pat_completeness auto

termination
  by (relation "measure (\<lambda>(s, i, w). unat (chn_gain_code (hx_chn_gain s)) - i)") auto

declare select_loop.simps [simp del]

text \<open>
  \<^verbatim>\<open>getRawValue\<close>. The last two statements: \<^verbatim>\<open>(int8_t)bytes[2]\<close> widened to
  \<^verbatim>\<open>int32_t\<close> is the sign extension \<open>scast\<close>; \<^verbatim>\<open>(uint32_t)bytes[k]\<close> is \<open>ucast\<close>.
\<close>

definition getRawValue :: "HX711_GSR \<Rightarrow> world \<Rightarrow> int32_t outcome" where
  "getRawValue s w =
     (case wait_ready (hx_pinDOUT s) w of
        Returns u w1 \<Rightarrow>
          (case read_bytes_loop s 0 [0, 0, 0] w1 of
             Returns bytes w2 \<Rightarrow>
               (let w3 = select_loop s 0 w2;
                    val = (scast (bytes ! 2) :: int32_t);
                    val = push_bit 16 val OR push_bit 8 (ucast (bytes ! 1)) OR ucast (bytes ! 0)
                in Returns val w3)
           | DivideFault w2 \<Rightarrow> DivideFault w2
           | OutOfInput \<Rightarrow> OutOfInput)
      | DivideFault w1 \<Rightarrow> DivideFault w1
      | OutOfInput \<Rightarrow> OutOfInput)"

subsection \<open>Averaging\<close>

text \<open>
  A call that returns leaves the clock script as it was: the driver reads the clock
  only in \<^verbatim>\<open>getAverageValue\<close>. The averaging loop terminates on this.
\<close>

lemma emit_millis_script [simp]: "millis_script (emit e w) = millis_script w"
  by (simp add: emit_def)

lemma digitalRead_millis_script:
  "digitalRead pin w = Returns level w' \<Longrightarrow> millis_script w' = millis_script w"
  by (auto simp: digitalRead_def emit_def split: list.splits)

lemma readByte_loop_millis_script:
  "readByte_loop d c bo i v w = Returns b w' \<Longrightarrow> millis_script w' = millis_script w"
proof (induction d c bo i v w rule: readByte_loop.induct)
  case (1 d c bo i v w)
  show ?case
  proof (cases "i < 8")
    case True
    from "1.prems" True obtain level w1 where
      r: "digitalRead d (delayMicroseconds 2 (digitalWrite c HIGH w)) = Returns level w1"
      by (subst (asm) readByte_loop.simps) (auto split: outcome.splits)
    from "1.prems" True r have
      "readByte_loop d c bo (i + 1)
         (if bo = LSBFIRST then v OR push_bit i (of_bool level)
          else v OR push_bit (7 - i) (of_bool level))
         (delayMicroseconds 2 (digitalWrite c LOW w1)) = Returns b w'"
      by (subst (asm) readByte_loop.simps) (simp split del: split_of_bool)
    from "1.IH" [OF True r this] digitalRead_millis_script [OF r]
    show ?thesis by (simp add: delayMicroseconds_def digitalWrite_def)
  next
    case False
    with "1.prems" show ?thesis by (subst (asm) readByte_loop.simps) simp
  qed
qed

lemma wait_ready_millis_script:
  "wait_ready pin w = Returns u w' \<Longrightarrow> millis_script w' = millis_script w"
proof (induction pin w rule: wait_ready.induct)
  case (1 pin w)
  from "1.prems" obtain level w1 where r: "digitalRead pin w = Returns level w1"
    by (subst (asm) wait_ready.simps) (auto split: outcome.splits)
  show ?case
  proof (cases "level \<noteq> LOW")
    case True
    from "1.prems" r True have "wait_ready pin w1 = Returns u w'"
      by (subst (asm) wait_ready.simps) simp
    from "1.IH" [OF r True this] digitalRead_millis_script [OF r] show ?thesis by simp
  next
    case False
    with "1.prems" r have "w' = w1" by (subst (asm) wait_ready.simps) simp
    with digitalRead_millis_script [OF r] show ?thesis by simp
  qed
qed

lemma read_bytes_loop_millis_script:
  "read_bytes_loop s i bytes w = Returns bs w' \<Longrightarrow> millis_script w' = millis_script w"
proof (induction s i bytes w rule: read_bytes_loop.induct)
  case (1 s i bytes w)
  show ?case
  proof (cases "i < 3")
    case True
    from "1.prems" True obtain byte w1 where
      r: "readByte (hx_pinDOUT s) (hx_pinPD_SCK s) MSBFIRST w = Returns byte w1"
      by (subst (asm) read_bytes_loop.simps) (auto split: outcome.splits)
    from "1.prems" True r have "read_bytes_loop s (i + 1) (bytes[2 - i := byte]) w1 = Returns bs w'"
      by (subst (asm) read_bytes_loop.simps) simp
    from "1.IH" [OF True r this] r show ?thesis
      by (simp add: readByte_def readByte_loop_millis_script)
  next
    case False
    with "1.prems" show ?thesis by (subst (asm) read_bytes_loop.simps) simp
  qed
qed

lemma select_loop_millis_script: "millis_script (select_loop s i w) = millis_script w"
proof (induction s i w rule: select_loop.induct)
  case (1 s i w)
  show ?case
  proof (cases "i < unat (chn_gain_code (hx_chn_gain s))")
    case True
    from "1.IH" [OF True] True show ?thesis
      by (subst select_loop.simps) (simp add: delayMicroseconds_def digitalWrite_def)
  next
    case False
    then show ?thesis by (subst select_loop.simps) simp
  qed
qed

lemma getRawValue_millis_script:
  "getRawValue s w = Returns raw w' \<Longrightarrow> millis_script w' = millis_script w"
  by (auto simp: getRawValue_def Let_def select_loop_millis_script
      split: outcome.splits
      dest!: wait_ready_millis_script read_bytes_loop_millis_script)

lemma millis_shortens:
  "millis w = Returns t w' \<Longrightarrow> length (millis_script w') < length (millis_script w)"
  by (auto simp: millis_def split: list.splits)

lemma sample_after_millis_shortens:
  "millis w = Returns t w1 \<Longrightarrow> getRawValue s w1 = Returns raw w2 \<Longrightarrow>
   length (millis_script w2) < length (millis_script w)"
  using millis_shortens [of w t w1] getRawValue_millis_script [of s w1 raw w2] by simp

text \<open>
  The \<^verbatim>\<open>do { .. } while (i < nbr)\<close> of \<^verbatim>\<open>getAverageValue\<close>: the body runs before
  the test. \<open>v\<close> is the sum so far and \<open>i\<close> the number of samples taken, a
  \<^verbatim>\<open>uint8_t\<close>; \<^verbatim>\<open>millis() % 150\<close> is unsigned.
\<close>

function average_loop :: "HX711_GSR \<Rightarrow> uint8_t \<Rightarrow> int32_t \<Rightarrow> uint8_t \<Rightarrow> world \<Rightarrow> int32_t outcome" where
  "average_loop s nbr v i w =
     (case millis w of
        Returns t w1 \<Rightarrow>
          (if t mod 150 = 0 then
             (case getRawValue s w1 of
                Returns raw w2 \<Rightarrow>
                  (if i + 1 < nbr then average_loop s nbr (v + raw) (i + 1) w2
                   else Returns (v + raw) w2)
              | DivideFault w2 \<Rightarrow> DivideFault w2
              | OutOfInput \<Rightarrow> OutOfInput)
           else (if i < nbr then average_loop s nbr v i w1 else Returns v w1))
      | DivideFault w1 \<Rightarrow> DivideFault w1
      | OutOfInput \<Rightarrow> OutOfInput)"
  by pat_completeness auto

termination
  by (relation "measure (\<lambda>(s, nbr, v, i, w). length (millis_script w))")
     (auto intro: millis_shortens sample_after_millis_shortens)

declare average_loop.simps [simp del]

text \<open>
  The division \<^verbatim>\<open>/\<close> of two \<^verbatim>\<open>int32_t\<close> truncates towards zero; it is only
  called with a divisor that is not zero.
\<close>

definition int32_div :: "int32_t \<Rightarrow> int32_t \<Rightarrow> int32_t" where
  "int32_div a b = word_of_int (sint a sdiv sint b)"

text \<open>
  \<^verbatim>\<open>getAverageValue\<close>: \<^verbatim>\<open>return v / nbr\<close>, with \<open>nbr\<close> promoted to a signed
  integer. A zero divisor is the outcome \<open>DivideFault\<close>.
\<close>

definition getAverageValue :: "HX711_GSR \<Rightarrow> uint8_t \<Rightarrow> world \<Rightarrow> int32_t outcome" where
  "getAverageValue s nbr w =
     (case average_loop s nbr 0 0 w of
        Returns v w1 \<Rightarrow>
          (if nbr = 0 then DivideFault w1 else Returns (int32_div v (ucast nbr)) w1)
      | DivideFault w1 \<Rightarrow> DivideFault w1
      | OutOfInput \<Rightarrow> OutOfInput)"

subsection \<open>Calibration and weighing\<close>

text \<open>A method that changes the object returns its result and the object.\<close>

definition set_chnGain :: "HX711_GSR \<Rightarrow> CHN_GAIN \<Rightarrow> CHN_GAIN \<times> HX711_GSR" where
  "set_chnGain s chnGain = (chnGain, s\<lparr>hx_chn_gain := chnGain\<rparr>)"

definition set_v0 :: "HX711_GSR \<Rightarrow> int32_t \<Rightarrow> int32_t \<times> HX711_GSR" where
  "set_v0 s v0 = (v0, s\<lparr>hx_v0 := v0\<rparr>)"

definition set_vref :: "HX711_GSR \<Rightarrow> int32_t \<Rightarrow> int32_t \<times> HX711_GSR" where
  "set_vref s vref = (vref, s\<lparr>hx_vref := vref\<rparr>)"

definition set_wref :: "HX711_GSR \<Rightarrow> int32_t \<Rightarrow> int32_t \<times> HX711_GSR" where
  "set_wref s gramsRefWeight = (gramsRefWeight, s\<lparr>hx_gramsRefWeight := gramsRefWeight\<rparr>)"

definition get_wref :: "HX711_GSR \<Rightarrow> int32_t" where
  "get_wref s = hx_gramsRefWeight s"

definition getMaxLoad :: "HX711_GSR \<Rightarrow> int32_t" where
  "getMaxLoad s = hx_gramsMaxLoad s"

definition get_v0 :: "HX711_GSR \<Rightarrow> int32_t" where
  "get_v0 s = hx_v0 s"

definition get_vref :: "HX711_GSR \<Rightarrow> int32_t" where
  "get_vref s = hx_vref s"

definition get_m :: "HX711_GSR \<Rightarrow> double" where
  "get_m s = hx_m s"

definition get_b :: "HX711_GSR \<Rightarrow> double" where
  "get_b s = hx_b s"

definition get_chnGain :: "HX711_GSR \<Rightarrow> CHN_GAIN" where
  "get_chnGain s = hx_chn_gain s"


definition powerdown :: "HX711_GSR \<Rightarrow> world \<Rightarrow> world" where
  "powerdown s w = digitalWrite (hx_pinPD_SCK s) HIGH (digitalWrite (hx_pinPD_SCK s) LOW w)"

definition powerup :: "HX711_GSR \<Rightarrow> world \<Rightarrow> world" where
  "powerup s w = digitalWrite (hx_pinPD_SCK s) LOW w"

definition setZero :: "HX711_GSR \<Rightarrow> uint8_t \<Rightarrow> world \<Rightarrow> (int32_t \<times> HX711_GSR) outcome" where
  "setZero s nbr w =
     (case getAverageValue s nbr w of
        Returns v w1 \<Rightarrow> (let s1 = s\<lparr>hx_v0 := v\<rparr> in Returns (hx_v0 s1, s1) w1)
      | DivideFault w1 \<Rightarrow> DivideFault w1
      | OutOfInput \<Rightarrow> OutOfInput)"

text \<open>
  \<^verbatim>\<open>calibrate\<close>. In \<^verbatim>\<open>-_gramsRefWeight * (double)_v0\<close> the minus is the negation of
  the \<^verbatim>\<open>int32_t\<close>, before the conversion.
\<close>

definition calibrate :: "HX711_GSR \<Rightarrow> uint8_t \<Rightarrow> world \<Rightarrow> (double \<times> HX711_GSR) outcome" where
  "calibrate s nbr w =
     (case getAverageValue s nbr w of
        Returns v w1 \<Rightarrow>
          (let s1 = s\<lparr>hx_vref := v\<rparr>;
               s2 = s1\<lparr>hx_m := ddiv (double_of_int32 (hx_gramsRefWeight s1))
                                   (double_of_int32 (hx_vref s1 - hx_v0 s1))\<rparr>;
               s3 = s2\<lparr>hx_b := ddiv (dmul (double_of_int32 (- hx_gramsRefWeight s2))
                                         (double_of_int32 (hx_v0 s2)))
                                   (double_of_int32 (hx_vref s2 - hx_v0 s2))\<rparr>
           in Returns (hx_m s3, s3) w1)
      | DivideFault w1 \<Rightarrow> DivideFault w1
      | OutOfInput \<Rightarrow> OutOfInput)"

definition getWeight :: "HX711_GSR \<Rightarrow> uint8_t \<Rightarrow> world \<Rightarrow> double outcome" where
  "getWeight s nbr w =
     (case getAverageValue s nbr w of
        Returns v w1 \<Rightarrow>
          (let wt = ddiv (dmul (double_of_int32 (hx_gramsRefWeight s))
                            (double_of_int32 (v - hx_v0 s)))
                      (double_of_int32 (hx_vref s - hx_v0 s));
               wt = ddiv (dround (dmul (Finite 10) wt)) (Finite 10)
           in Returns wt w1)
      | DivideFault w1 \<Rightarrow> DivideFault w1
      | OutOfInput \<Rightarrow> OutOfInput)"

subsection \<open>The command program\<close>

text \<open>
  The commands of \<^verbatim>\<open>loadCell.cpp\<close> work on the one global object \<^verbatim>\<open>myScale\<close>: a
  command takes the object and the world and returns both. Where a command has the
  name of a method, it is prefixed with \<open>loadCell_\<close>.
\<close>

definition maxLoad :: uint32_t where
  "maxLoad = 1000"

definition PIN_DOUT :: uint8_t where
  "PIN_DOUT = 3"

definition PIN_PD_SCK :: uint8_t where
  "PIN_PD_SCK = 2"

definition myScale :: HX711_GSR where
  "myScale = new_HX711_GSR PIN_DOUT PIN_PD_SCK maxLoad"

definition delay :: "nat \<Rightarrow> world \<Rightarrow> world" where
  "delay ms w = emit (Delay ms) w"

definition Serial_print :: "string \<Rightarrow> print_arg list \<Rightarrow> world \<Rightarrow> world" where
  "Serial_print fmt args w = emit (SerialPrint fmt args) w"

definition Serial_available :: "world \<Rightarrow> bool" where
  "Serial_available w = (serial_in w \<noteq> [])"

text \<open>\<^verbatim>\<open>Serial.parseInt\<close> returns 0 when it times out on an empty line.\<close>

definition Serial_parseInt :: "world \<Rightarrow> int32_t \<times> world" where
  "Serial_parseInt w =
     (case serial_in w of
        [] \<Rightarrow> (0, w)
      | x # rest \<Rightarrow> (x, w\<lparr>serial_in := rest\<rparr>))"

text \<open>\<^verbatim>\<open>while (Serial.available()) refWeight = Serial.parseInt();\<close>\<close>

function parse_loop :: "int32_t \<Rightarrow> world \<Rightarrow> int32_t \<times> world" where
  "parse_loop refWeight w =
     (if Serial_available w then
        (case Serial_parseInt w of (x, w1) \<Rightarrow> parse_loop x w1)
      else (refWeight, w))"
  by pat_completeness auto

termination
  by (relation "measure (\<lambda>(refWeight, w). length (serial_in w))")
     (auto simp: Serial_available_def Serial_parseInt_def split: list.splits)

declare parse_loop.simps [simp del]

definition enterRefWeight :: "HX711_GSR \<Rightarrow> world \<Rightarrow> HX711_GSR \<times> world" where
  "enterRefWeight s w =
     (case parse_loop (- 1) (delay 2000 w) of
        (refWeight, w1) \<Rightarrow>
          (if sint refWeight < sint (int32_div (getMaxLoad s) 10) \<or>
              sint refWeight > sint (getMaxLoad s)
           then (s, Serial_print ''Value out of range, allowed: %ld .. %ld [grams] ''
                      [ArgInt (int32_div (getMaxLoad s) 10), ArgInt (getMaxLoad s)] w1)
           else (case set_wref s refWeight of
                   (r, s1) \<Rightarrow>
                     (s1, Serial_print ''Reference weight set to %ld ''
                            [ArgInt (get_wref s1)] w1))))"

definition loadCell_calibrate :: "HX711_GSR \<Rightarrow> world \<Rightarrow> HX711_GSR outcome" where
  "loadCell_calibrate s w =
     (if sint (get_wref s) < 0 then
        Returns s (Serial_print ''First enter reference weight! '' [] w)
      else if get_v0 s = 0 then
        Returns s (Serial_print ''First Set 0 (Tare) '' [] w)
      else
        (case calibrate s 16 w of
           Returns (m, s1) w1 \<Rightarrow>
             (if dgreater (fabs (get_m s1)) (Finite 1) then
                Returns s1 (Serial_print ''First Calibrate with Reference Weight '' [] w1)
              else
                Returns s1 (Serial_print ''Calibrated: Weight = %.9f * v %+9.4f ''
                              [ArgDouble m, ArgDouble (get_b s1)] w1))
         | DivideFault w1 \<Rightarrow> DivideFault w1
         | OutOfInput \<Rightarrow> OutOfInput))"

section \<open>What the board sends and what the driver records\<close>

text \<open>
  The vocabulary of the statements below. A byte is clocked out most significant bit
  first; a sample is \<open>k\<close> high levels of the data pin (conversion not ready), one low
  level (ready) and three bytes, the most significant first.
\<close>

definition msb_bits :: "uint8_t \<Rightarrow> bool list" where
  "msb_bits b = [bit b 7, bit b 6, bit b 5, bit b 4, bit b 3, bit b 2, bit b 1, bit b 0]"

definition read_pulse :: "uint8_t \<Rightarrow> uint8_t \<Rightarrow> bool \<Rightarrow> event list" where
  "read_pulse dataPin clockPin level =
     [DigitalWrite clockPin True, DelayMicroseconds 2, DigitalRead dataPin level,
      DigitalWrite clockPin False, DelayMicroseconds 2]"

definition byte_trace :: "uint8_t \<Rightarrow> uint8_t \<Rightarrow> uint8_t \<Rightarrow> event list" where
  "byte_trace dataPin clockPin b = concat (map (read_pulse dataPin clockPin) (msb_bits b))"

fun shift_in :: "nat \<Rightarrow> uint8_t \<Rightarrow> bool list \<Rightarrow> uint8_t" where
  "shift_in i v [] = v"
| "shift_in i v (level # ls) = shift_in (Suc i) (v OR push_bit (7 - i) (of_bool level)) ls"

definition select_pulse :: "uint8_t \<Rightarrow> event list" where
  "select_pulse clockPin =
     [DigitalWrite clockPin True, DelayMicroseconds 2, DigitalWrite clockPin False,
      DelayMicroseconds 2]"

definition sample_frame :: "nat \<Rightarrow> uint8_t \<Rightarrow> uint8_t \<Rightarrow> uint8_t \<Rightarrow> bool list" where
  "sample_frame k b2 b1 b0 = replicate k True @ False # msb_bits b2 @ msb_bits b1 @ msb_bits b0"

definition sample_value :: "uint8_t \<Rightarrow> uint8_t \<Rightarrow> uint8_t \<Rightarrow> int32_t" where
  "sample_value b2 b1 b0 = push_bit 16 (scast b2) OR push_bit 8 (ucast b1) OR ucast b0"

definition sample_trace :: "HX711_GSR \<Rightarrow> nat \<Rightarrow> uint8_t \<Rightarrow> uint8_t \<Rightarrow> uint8_t \<Rightarrow> event list" where
  "sample_trace s k b2 b1 b0 =
     map (DigitalRead (hx_pinDOUT s)) (replicate k True @ [False]) @
     byte_trace (hx_pinDOUT s) (hx_pinPD_SCK s) b2 @
     byte_trace (hx_pinDOUT s) (hx_pinPD_SCK s) b1 @
     byte_trace (hx_pinDOUT s) (hx_pinPD_SCK s) b0 @
     concat (replicate (unat (chn_gain_code (hx_chn_gain s))) (select_pulse (hx_pinPD_SCK s)))"

text \<open>
  A sample as the board sends it: the number of high levels before the ready signal
  and the three bytes. \<open>hits\<close> counts the clock values at which the averaging loop
  takes a sample, and \<open>after_hits n\<close> is what is left of the clock script once the
  \<open>n\<close>-th of them has been read.
\<close>

type_synonym frame = "nat \<times> uint8_t \<times> uint8_t \<times> uint8_t"

fun frame_levels :: "frame \<Rightarrow> bool list" where
  "frame_levels (k, b2, b1, b0) = sample_frame k b2 b1 b0"

fun frame_value :: "frame \<Rightarrow> int32_t" where
  "frame_value (k, b2, b1, b0) = sample_value b2 b1 b0"

fun frame_trace :: "HX711_GSR \<Rightarrow> frame \<Rightarrow> event list" where
  "frame_trace s (k, b2, b1, b0) = sample_trace s k b2 b1 b0"

fun after_hits :: "nat \<Rightarrow> uint32_t list \<Rightarrow> uint32_t list" where
  "after_hits 0 ts = ts"
| "after_hits (Suc n) [] = []"
| "after_hits (Suc n) (t # ts) =
     (if t mod 150 = 0 then after_hits n ts else after_hits (Suc n) ts)"

definition hits :: "uint32_t list \<Rightarrow> nat" where
  "hits ts = length (filter (\<lambda>t. t mod 150 = 0) ts)"

text \<open>
  The pulse count of each channel and gain setting, as the data sheet of the HX711
  and the specification give it.
\<close>

fun pulse_count :: "CHN_GAIN \<Rightarrow> nat" where
  "pulse_count NO_CHN = 0"
| "pulse_count CHN_A_128 = 1"
| "pulse_count CHN_B_32 = 2"
| "pulse_count CHN_A_64 = 3"

text \<open>
  The weight of the specification: \<open>refWeightGrams * (code - zeroCode) / (refCode -
  zeroCode)\<close> over the integers and the reals, rounded to one decimal place, a half
  away from zero.
\<close>

definition round_tenths :: "real \<Rightarrow> real" where
  "round_tenths x = sgn x * real_of_int \<lfloor>\<bar>x\<bar> * 10 + 1 / 2\<rfloor> / 10"

definition weightFromCode :: "int \<Rightarrow> int \<Rightarrow> int \<Rightarrow> int \<Rightarrow> real" where
  "weightFromCode refWeightGrams zeroCode refCode code =
     round_tenths (real_of_int refWeightGrams * real_of_int (code - zeroCode) /
                   real_of_int (refCode - zeroCode))"


section \<open>Reading a sample\<close>

lemma shift_in_msb_bits: "shift_in 0 0 (msb_bits b) = b"
proof -
  have "shift_in 0 0 (msb_bits b) =
    (((((((((0::8 word) OR push_bit 7 (of_bool (bit b 7))) OR push_bit 6 (of_bool (bit b 6)))
     OR push_bit 5 (of_bool (bit b 5))) OR push_bit 4 (of_bool (bit b 4))) OR push_bit 3 (of_bool (bit b 3)))
     OR push_bit 2 (of_bool (bit b 2))) OR push_bit 1 (of_bool (bit b 1))) OR push_bit 0 (of_bool (bit b 0)))"
    by (simp add: msb_bits_def split del: split_of_bool)
  also have "\<dots> = b"
    apply (rule bit_word_eqI)
    apply (simp add: bit_simps)
    apply (auto simp: less_Suc_eq numeral_eq_Suc bit_simps)
    done
  finally show ?thesis .
qed

lemma readByte_loop_step:
  "pin_script w = level # rest \<Longrightarrow> i < 8 \<Longrightarrow>
   readByte_loop d c MSBFIRST i v w =
   readByte_loop d c MSBFIRST (Suc i) (v OR push_bit (7 - i) (of_bool level))
     (w\<lparr>pin_script := rest, trace := trace w @ read_pulse d c level\<rparr>)"
  by (subst readByte_loop.simps)
     (simp add: digitalRead_def digitalWrite_def delayMicroseconds_def emit_def
        read_pulse_def HIGH_def LOW_def MSBFIRST_def LSBFIRST_def split del: split_of_bool)

lemma readByte_loop_done: "readByte_loop d c bo 8 v w = Returns v w"
  by (subst readByte_loop.simps) simp

lemma readByte_loop_run:
  "pin_script w = ls @ rest \<Longrightarrow> i + length ls = 8 \<Longrightarrow>
   readByte_loop d c MSBFIRST i v w =
     Returns (shift_in i v ls)
       (w\<lparr>pin_script := rest, trace := trace w @ concat (map (read_pulse d c) ls)\<rparr>)"
proof (induction ls arbitrary: i v w)
  case Nil
  then show ?case by (simp add: readByte_loop_done)
next
  case (Cons level ls)
  from Cons.prems have i: "i < 8" and ps: "pin_script w = level # (ls @ rest)" by simp_all
  let ?w = "w\<lparr>pin_script := ls @ rest, trace := trace w @ read_pulse d c level\<rparr>"
  have "readByte_loop d c MSBFIRST (Suc i) (v OR push_bit (7 - i) (of_bool level)) ?w =
     Returns (shift_in (Suc i) (v OR push_bit (7 - i) (of_bool level)) ls)
       (?w\<lparr>pin_script := rest, trace := trace ?w @ concat (map (read_pulse d c) ls)\<rparr>)"
    using Cons.prems by (intro Cons.IH) simp_all
  then show ?case
    by (simp add: readByte_loop_step [OF ps i] split del: split_of_bool)
qed

lemma readByte_msb:
  assumes "pin_script w = msb_bits b @ rest"
  shows "readByte d c MSBFIRST w =
           Returns b (w\<lparr>pin_script := rest, trace := trace w @ byte_trace d c b\<rparr>)"
  using readByte_loop_run [OF assms, of 0 d c 0]
  by (simp add: readByte_def byte_trace_def shift_in_msb_bits) (simp add: msb_bits_def)

lemma wait_ready_run:
  "pin_script w = replicate k True @ False # rest \<Longrightarrow>
   wait_ready pin w =
     Returns () (w\<lparr>pin_script := rest,
                   trace := trace w @ map (DigitalRead pin) (replicate k True @ [False])\<rparr>)"
proof (induction k arbitrary: w)
  case 0
  then show ?case
    by (subst wait_ready.simps) (simp add: digitalRead_def emit_def LOW_def)
next
  case (Suc k)
  let ?w = "w\<lparr>pin_script := replicate k True @ False # rest, trace := trace w @ [DigitalRead pin True]\<rparr>"
  have "wait_ready pin w = wait_ready pin ?w"
    using Suc.prems by (subst wait_ready.simps) (simp add: digitalRead_def emit_def LOW_def)
  also have "\<dots> = Returns () (?w\<lparr>pin_script := rest,
                   trace := trace ?w @ map (DigitalRead pin) (replicate k True @ [False])\<rparr>)"
    by (rule Suc.IH) simp
  finally show ?case by simp
qed

lemma read_bytes_loop_run:
  assumes "pin_script w = msb_bits b2 @ msb_bits b1 @ msb_bits b0 @ rest"
  shows "read_bytes_loop s 0 [0, 0, 0] w =
     Returns [b0, b1, b2]
       (w\<lparr>pin_script := rest,
          trace := trace w @ byte_trace (hx_pinDOUT s) (hx_pinPD_SCK s) b2 @
            byte_trace (hx_pinDOUT s) (hx_pinPD_SCK s) b1 @
            byte_trace (hx_pinDOUT s) (hx_pinPD_SCK s) b0\<rparr>)"
proof -
  let ?d = "hx_pinDOUT s" and ?c = "hx_pinPD_SCK s"
  let ?w1 = "w\<lparr>pin_script := msb_bits b1 @ msb_bits b0 @ rest, trace := trace w @ byte_trace ?d ?c b2\<rparr>"
  let ?w2 = "w\<lparr>pin_script := msb_bits b0 @ rest,
       trace := trace w @ byte_trace ?d ?c b2 @ byte_trace ?d ?c b1\<rparr>"
  let ?w3 = "w\<lparr>pin_script := rest,
       trace := trace w @ byte_trace ?d ?c b2 @ byte_trace ?d ?c b1 @ byte_trace ?d ?c b0\<rparr>"
  have 1: "readByte ?d ?c MSBFIRST w = Returns b2 ?w1"
    by (rule readByte_msb) (simp add: assms)
  have 2: "readByte ?d ?c MSBFIRST ?w1 = Returns b1 ?w2"
    using readByte_msb [of ?w1 b1 "msb_bits b0 @ rest" ?d ?c] by simp
  have 3: "readByte ?d ?c MSBFIRST ?w2 = Returns b0 ?w3"
    using readByte_msb [of ?w2 b0 rest ?d ?c] by simp
  have "read_bytes_loop s 0 [0, 0, 0] w = read_bytes_loop s (Suc 0) [0, 0, b2] ?w1"
    by (subst read_bytes_loop.simps) (simp add: 1)
  also have "\<dots> = read_bytes_loop s (Suc (Suc 0)) [0, b1, b2] ?w2"
    by (subst read_bytes_loop.simps) (simp add: 2 numeral_2_eq_2)
  also have "\<dots> = read_bytes_loop s (Suc (Suc (Suc 0))) [b0, b1, b2] ?w3"
    by (subst read_bytes_loop.simps) (simp add: 3)
  also have "\<dots> = Returns [b0, b1, b2] ?w3"
    by (subst read_bytes_loop.simps) simp
  finally show ?thesis .
qed

lemma select_loop_run:
  "i \<le> unat (chn_gain_code (hx_chn_gain s)) \<Longrightarrow>
   select_loop s i w =
     w\<lparr>trace := trace w @
        concat (replicate (unat (chn_gain_code (hx_chn_gain s)) - i) (select_pulse (hx_pinPD_SCK s)))\<rparr>"
proof (induction s i w rule: select_loop.induct)
  case (1 s i w)
  show ?case
  proof (cases "i < unat (chn_gain_code (hx_chn_gain s))")
    case True
    then have n: "unat (chn_gain_code (hx_chn_gain s)) - i = Suc (unat (chn_gain_code (hx_chn_gain s)) - (i + 1))"
      by simp
    show ?thesis
      using True "1.IH" [OF True]
      by (subst select_loop.simps, subst n)
         (simp add: digitalWrite_def delayMicroseconds_def emit_def select_pulse_def HIGH_def LOW_def)
  next
    case False
    with "1.prems" show ?thesis
      by (subst select_loop.simps) simp
  qed
qed

lemma getRawValue_frame:
  assumes "pin_script w = sample_frame k b2 b1 b0 @ rest"
  shows "getRawValue s w =
     Returns (sample_value b2 b1 b0)
       (w\<lparr>pin_script := rest, trace := trace w @ sample_trace s k b2 b1 b0\<rparr>)"
proof -
  let ?d = "hx_pinDOUT s" and ?c = "hx_pinPD_SCK s"
  let ?w1 = "w\<lparr>pin_script := msb_bits b2 @ msb_bits b1 @ msb_bits b0 @ rest,
       trace := trace w @ map (DigitalRead ?d) (replicate k True @ [False])\<rparr>"
  let ?w2 = "w\<lparr>pin_script := rest,
       trace := trace w @ map (DigitalRead ?d) (replicate k True @ [False]) @
         byte_trace ?d ?c b2 @ byte_trace ?d ?c b1 @ byte_trace ?d ?c b0\<rparr>"
  have 1: "wait_ready ?d w = Returns () ?w1"
    by (rule wait_ready_run) (simp add: assms sample_frame_def)
  have 2: "read_bytes_loop s 0 [0, 0, 0] ?w1 = Returns [b0, b1, b2] ?w2"
    using read_bytes_loop_run [of ?w1 b2 b1 b0 rest s] by simp
  show ?thesis
    apply (simp only: getRawValue_def 1 outcome.case)
    apply (simp only: 2 outcome.case)
    apply (simp add: select_loop_run sample_value_def sample_trace_def Let_def)
    done
qed

section \<open>The value of a sample\<close>

lemma or_as_add: fixes b2 b1 b0 :: "8 word"
  shows "(push_bit 16 (signed b2 :: 32 word) OR push_bit 8 (unsigned b1) OR unsigned b0)
     = (signed b2 :: 32 word) * 65536 + unsigned b1 * 256 + unsigned b0"
proof -
  have 1: "push_bit 8 (unsigned b1 :: 32 word) OR unsigned b0 = push_bit 8 (unsigned b1) + unsigned b0"
    by (rule disjunctive_add [symmetric]) (auto simp: bit_simps dest: bit_imp_le_length)
  have 2: "push_bit 16 (signed b2 :: 32 word) OR (push_bit 8 (unsigned b1) + unsigned b0)
       = push_bit 16 (signed b2 :: 32 word) + (push_bit 8 (unsigned b1) + unsigned b0)"
    unfolding 1 [symmetric]
    by (rule disjunctive_add [symmetric]) (auto simp: bit_simps dest: bit_imp_le_length)
  have "push_bit 16 (signed b2 :: 32 word) OR push_bit 8 (unsigned b1) OR unsigned b0
      = push_bit 16 (signed b2 :: 32 word) + (push_bit 8 (unsigned b1) + unsigned b0)"
    by (simp only: 1 2)
  also have "\<dots> = (signed b2 :: 32 word) * 65536 + unsigned b1 * 256 + unsigned b0"
    by (simp add: push_bit_eq_mult)
  finally show ?thesis .
qed

lemma sint_sample_value:
  "sint (sample_value b2 b1 b0) = sint b2 * 65536 + uint b1 * 256 + uint b0"
proof -
  let ?K = "sint b2 * 65536 + uint b1 * 256 + uint b0"
  have w: "(signed b2 :: 32 word) * 65536 + unsigned b1 * 256 + unsigned b0 = word_of_int ?K"
    by simp
  have lo: "- 128 \<le> sint b2" and hi: "sint b2 < 128"
    using sint_ge [of b2] sint_lt [of b2] by simp_all
  have u1: "uint b1 < 256" and u0: "uint b0 < 256"
    using uint_lt2p [of b1] uint_lt2p [of b0] by simp_all
  have n1: "0 \<le> uint b1" and n0: "0 \<le> uint b0" by simp_all
  have "- 2147483648 \<le> ?K" 
    using lo hi u1 u0 n1 n0 by linarith
  then have r1: "- (2 ^ 31) \<le> ?K" by simp
  have "?K < 2147483648"
    using lo hi u1 u0 n1 n0 by linarith
  then have r2: "?K < 2 ^ 31" by simp
  have "signed_take_bit (LENGTH(32) - 1) ?K = ?K"
    using r1 r2 by (simp add: signed_take_bit_int_eq_self)
  then show ?thesis
    unfolding sample_value_def or_as_add w by (simp only: sint_sbintrunc')
qed

lemma sample_value_range:
  "- 8388608 \<le> sint (sample_value b2 b1 b0)" "sint (sample_value b2 b1 b0) \<le> 8388607"
proof -
  have lo: "- 128 \<le> sint b2" and hi: "sint b2 < 128"
    using sint_ge [of b2] sint_lt [of b2] by simp_all
  have u1: "uint b1 < 256" and u0: "uint b0 < 256"
    using uint_lt2p [of b1] uint_lt2p [of b0] by simp_all
  have n1: "0 \<le> uint b1" and n0: "0 \<le> uint b0" by simp_all
  show "- 8388608 \<le> sint (sample_value b2 b1 b0)"
    unfolding sint_sample_value using lo hi u1 u0 n1 n0 by linarith
  show "sint (sample_value b2 b1 b0) \<le> 8388607"
    unfolding sint_sample_value using lo hi u1 u0 n1 n0 by linarith
qed

text \<open>
  C1. For every three bytes clocked in most significant bit first, \<open>getRawValue\<close>
  returns the sign extension of the first byte shifted left by 16, or-ed with the
  second byte shifted left by 8, or-ed with the third byte. As an integer this is
  \<open>sint b2 * 2^16 + uint b1 * 2^8 + uint b0\<close>, so it lies between \<open>-2^23\<close> and
  \<open>2^23 - 1\<close>; the bytes \<open>0x7F 0xFF 0xFF\<close> give 8388607 and the bytes
  \<open>0x80 0x00 0x00\<close> give -8388608.
\<close>

theorem getRawValue_assembles_sample:
  "pin_script w = sample_frame k b2 b1 b0 @ rest \<Longrightarrow>
   getRawValue s w =
     Returns (sample_value b2 b1 b0)
       (w\<lparr>pin_script := rest, trace := trace w @ sample_trace s k b2 b1 b0\<rparr>) \<and>
   sample_value b2 b1 b0 = push_bit 16 (scast b2) OR push_bit 8 (ucast b1) OR ucast b0 \<and>
   sint (sample_value b2 b1 b0) = sint b2 * 2 ^ 16 + uint b1 * 2 ^ 8 + uint b0 \<and>
   - (2 ^ 23) \<le> sint (sample_value b2 b1 b0) \<and>
   sint (sample_value b2 b1 b0) \<le> 2 ^ 23 - 1 \<and>
   sint (sample_value 0x7F 0xFF 0xFF) = 8388607 \<and>
   sint (sample_value 0x80 0x00 0x00) = - 8388608"
  using getRawValue_frame [of w k b2 b1 b0 rest s] sample_value_range [of b2 b1 b0]
  by (simp add: sint_sample_value) (simp add: sample_value_def)

theorem getRawValue_assembles_sample_witness:
  "getRawValue myScale
     \<lparr>pin_script = [False,
        False, True, True, True, True, True, True, True,
        True, True, True, True, True, True, True, True,
        True, True, True, True, True, True, True, True],
      millis_script = [], serial_in = [], trace = []\<rparr> =
   Returns 8388607
     \<lparr>pin_script = [], millis_script = [], serial_in = [],
      trace = sample_trace myScale 0 0x7F 0xFF 0xFF\<rparr>"
  using getRawValue_assembles_sample [of "\<lparr>pin_script = [False,
        False, True, True, True, True, True, True, True,
        True, True, True, True, True, True, True, True,
        True, True, True, True, True, True, True, True],
      millis_script = [], serial_in = [], trace = []\<rparr>" 0 "0x7F" "0xFF" "0xFF" "[]" myScale]
  by (simp add: sample_frame_def msb_bits_def sample_value_def)

section \<open>Averaging\<close>

lemma getRawValue_frame_levels:
  assumes "pin_script w = frame_levels f @ rest"
  shows "getRawValue s w =
     Returns (frame_value f) (w\<lparr>pin_script := rest, trace := trace w @ frame_trace s f\<rparr>)"
  using assms getRawValue_frame by (cases f) simp

lemma average_loop_miss:
  assumes "millis_script w = t # ts" "t mod 150 \<noteq> 0"
  shows "average_loop s nbr v i w =
     (if i < nbr then average_loop s nbr v i (w\<lparr>millis_script := ts\<rparr>)
      else Returns v (w\<lparr>millis_script := ts\<rparr>))"
  using assms by (subst average_loop.simps) (simp add: millis_def)

lemma average_loop_hit:
  assumes "millis_script w = t # ts" "t mod 150 = 0" "pin_script w = frame_levels f @ rest"
  shows "average_loop s nbr v i w =
     (if i + 1 < nbr
      then average_loop s nbr (v + frame_value f) (i + 1)
             (w\<lparr>pin_script := rest, millis_script := ts, trace := trace w @ frame_trace s f\<rparr>)
      else Returns (v + frame_value f)
             (w\<lparr>pin_script := rest, millis_script := ts, trace := trace w @ frame_trace s f\<rparr>))"
proof -
  have "getRawValue s (w\<lparr>millis_script := ts\<rparr>) =
      Returns (frame_value f)
        (w\<lparr>pin_script := rest, millis_script := ts, trace := trace w @ frame_trace s f\<rparr>)"
    using getRawValue_frame_levels [of "w\<lparr>millis_script := ts\<rparr>" f rest s] assms(3) by simp
  with assms(1,2) show ?thesis
    by (subst average_loop.simps) (simp add: millis_def)
qed

lemma average_loop_frames:
  assumes "fs \<noteq> []" "unat i + length fs = unat nbr"
    and "pin_script w = concat (map frame_levels fs) @ rest"
    and "length fs \<le> hits (millis_script w)"
  shows "average_loop s nbr v i w =
     Returns (v + sum_list (map frame_value fs))
       (w\<lparr>pin_script := rest, millis_script := after_hits (length fs) (millis_script w),
          trace := trace w @ concat (map (frame_trace s) fs)\<rparr>)"
  using assms
proof (induction "millis_script w" arbitrary: w v i fs)
  case Nil
  then show ?case by (simp add: hits_def)
next
  case (Cons t ts)
  from Cons.prems obtain f fs' where fs: "fs = f # fs'" by (cases fs) auto
  have ms: "millis_script w = t # ts" using Cons.hyps(2) by simp
  have i_lt: "i < nbr"
    using Cons.prems(2) fs by (simp add: word_less_nat_alt)
  show ?case
  proof (cases "t mod 150 = 0")
    case False
    let ?w1 = "w\<lparr>millis_script := ts\<rparr>"
    have "average_loop s nbr v i w = average_loop s nbr v i ?w1"
      using average_loop_miss [OF ms False] i_lt by simp
    also have "\<dots> = Returns (v + sum_list (map frame_value fs))
       (?w1\<lparr>pin_script := rest, millis_script := after_hits (length fs) (millis_script ?w1),
          trace := trace ?w1 @ concat (map (frame_trace s) fs)\<rparr>)"
      using Cons.prems False ms by (intro Cons.hyps(1)) (simp_all add: hits_def)
    finally show ?thesis using False ms fs by simp
  next
    case True
    let ?w2 = "w\<lparr>pin_script := concat (map frame_levels fs') @ rest, millis_script := ts,
        trace := trace w @ frame_trace s f\<rparr>"
    have ps: "pin_script w = frame_levels f @ (concat (map frame_levels fs') @ rest)"
      using Cons.prems(3) fs by simp
    have "unat nbr < 256"
      using unsigned_less [of nbr, where ?'a = nat] by simp
    then have un: "unat (i + 1) = unat i + 1"
      using Cons.prems(2) fs by (simp add: unat_word_ariths)
    note step = average_loop_hit [OF ms True ps, of s nbr v i]
    show ?thesis
    proof (cases "fs' = []")
      case True
      then have "\<not> i + 1 < nbr"
        using Cons.prems(2) fs un by (simp add: word_less_nat_alt)
      with step True fs ms \<open>t mod 150 = 0\<close> show ?thesis by simp
    next
      case False
      then have lt: "i + 1 < nbr"
        using Cons.prems(2) fs un by (cases fs') (simp_all add: word_less_nat_alt)
      have "average_loop s nbr v i w = average_loop s nbr (v + frame_value f) (i + 1) ?w2"
        using step lt by simp
      also have "\<dots> = Returns (v + frame_value f + sum_list (map frame_value fs'))
         (?w2\<lparr>pin_script := rest, millis_script := after_hits (length fs') (millis_script ?w2),
            trace := trace ?w2 @ concat (map (frame_trace s) fs')\<rparr>)"
        using Cons.prems fs False True ms un by (intro Cons.hyps(1)) (simp_all add: hits_def)
      finally show ?thesis using True ms fs by (simp add: add.assoc)
    qed
  qed
qed

lemma sint_frame_value_range:
  "- 8388608 \<le> sint (frame_value f)" "sint (frame_value f) \<le> 8388607"
  using sample_value_range by (cases f; simp)+

lemma sint_sum_frame_values:
  "length fs \<le> 255 \<Longrightarrow>
   sint (sum_list (map frame_value fs)) = sum_list (map (\<lambda>f. sint (frame_value f)) fs) \<and>
   \<bar>sum_list (map (\<lambda>f. sint (frame_value f)) fs)\<bar> \<le> int (length fs) * 8388608"
proof (induction fs)
  case Nil
  show ?case by simp
next
  case (Cons f fs)
  let ?S = "sum_list (map (\<lambda>f. sint (frame_value f)) fs)"
  from Cons have ih: "sint (sum_list (map frame_value fs)) = ?S"
    and bd: "\<bar>?S\<bar> \<le> int (length fs) * 8388608" by simp_all
  have len: "int (length fs) \<le> 254" using Cons.prems by simp
  have f: "- 8388608 \<le> sint (frame_value f)" "sint (frame_value f) \<le> 8388607"
    by (rule sint_frame_value_range)+
  have lo: "- 2147483648 \<le> sint (frame_value f) + ?S"
    using f bd len by linarith
  have hi: "sint (frame_value f) + ?S < 2147483648"
    using f bd len by linarith
  have "signed_take_bit (LENGTH(32) - 1) (sint (frame_value f) + ?S) = sint (frame_value f) + ?S"
    using lo hi by (simp add: signed_take_bit_int_eq_self)
  then have "sint (frame_value f + sum_list (map frame_value fs)) = sint (frame_value f) + ?S"
    by (simp only: sint_word_add ih)
  moreover have "\<bar>sint (frame_value f) + ?S\<bar> \<le> int (length (f # fs)) * 8388608"
    using f bd by simp
  ultimately show ?case by simp
qed

lemma sint_int32_div:
  assumes "0 < sint b"
  shows "sint (int32_div a b) = sint a sdiv sint b"
proof -
  let ?q = "sint a sdiv sint b"
  have a: "- 2147483648 \<le> sint a" "sint a < 2147483648"
    using sint_ge [of a] sint_lt [of a] by simp_all
  have d: "0 \<le> \<bar>sint a\<bar> div sint b" "\<bar>sint a\<bar> div sint b \<le> \<bar>sint a\<bar>"
    using assms zdiv_mono2 [of "\<bar>sint a\<bar>" 1 "sint b"]
    by (simp_all add: pos_imp_zdiv_nonneg_iff)
  have "- 2147483648 \<le> ?q \<and> ?q < 2147483648"
  proof (cases "0 \<le> sint a")
    case True
    then have "?q = \<bar>sint a\<bar> div sint b \<or> ?q = 0"
      using assms by (auto simp: signed_divide_int_def sgn_if)
    with True a d show ?thesis by auto
  next
    case False
    then have "?q = - (\<bar>sint a\<bar> div sint b)"
      using assms by (simp add: signed_divide_int_def sgn_if)
    with False a d show ?thesis by auto
  qed
  then have "signed_take_bit (LENGTH(32) - 1) ?q = ?q"
    by (simp add: signed_take_bit_int_eq_self)
  then show ?thesis
    by (simp only: int32_div_def sint_sbintrunc')
qed

lemma sint_ucast_nbr: "sint (ucast (nbr :: uint8_t) :: int32_t) = int (unat nbr)"
proof -
  have u: "uint nbr < 256" using uint_lt2p [of nbr] by simp
  have n: "0 \<le> uint nbr" by simp
  have "- 2147483648 \<le> uint nbr" using n by linarith
  then have lo: "- (2 ^ 31) \<le> uint nbr" by simp
  have "uint nbr < 2147483648" using u by linarith
  then have hi: "uint nbr < 2 ^ 31" by simp
  have "signed_take_bit 31 (uint nbr) = uint nbr"
    using lo hi by (rule signed_take_bit_int_eq_self)
  then show ?thesis by (simp add: signed_ucast_eq)
qed

lemma getAverageValue_frames:
  assumes "nbr \<noteq> 0" "length fs = unat nbr"
    and "pin_script w = concat (map frame_levels fs) @ rest"
    and "unat nbr \<le> hits (millis_script w)"
  shows "getAverageValue s nbr w =
     Returns (int32_div (sum_list (map frame_value fs)) (ucast nbr))
       (w\<lparr>pin_script := rest, millis_script := after_hits (unat nbr) (millis_script w),
          trace := trace w @ concat (map (frame_trace s) fs)\<rparr>)"
proof -
  have ne: "fs \<noteq> []" using assms(1,2) by (auto simp: unat_eq_0)
  have "average_loop s nbr 0 0 w =
     Returns (0 + sum_list (map frame_value fs))
       (w\<lparr>pin_script := rest, millis_script := after_hits (length fs) (millis_script w),
          trace := trace w @ concat (map (frame_trace s) fs)\<rparr>)"
    using ne assms by (intro average_loop_frames) simp_all
  then show ?thesis
    using assms(1,2) by (simp add: getAverageValue_def)
qed

text \<open>
  C3. For every count of at least 1 and every sequence of that many samples on the
  data pin, \<open>getAverageValue\<close> reads exactly these samples (the rest of the pin
  script is left) and returns their sum divided by the count, truncated towards zero;
  the samples 100, 102, 101, 101 with count 4 give 101.
\<close>

theorem getAverageValue_truncated_mean:
  "nbr \<noteq> 0 \<Longrightarrow> length fs = unat nbr \<Longrightarrow>
   pin_script w = concat (map frame_levels fs) @ rest \<Longrightarrow>
   unat nbr \<le> hits (millis_script w) \<Longrightarrow>
   getAverageValue s nbr w =
     Returns (int32_div (sum_list (map frame_value fs)) (ucast nbr))
       (w\<lparr>pin_script := rest, millis_script := after_hits (unat nbr) (millis_script w),
          trace := trace w @ concat (map (frame_trace s) fs)\<rparr>) \<and>
   sint (int32_div (sum_list (map frame_value fs)) (ucast nbr)) =
     sum_list (map (\<lambda>f. sint (frame_value f)) fs) sdiv int (unat nbr)"
proof -
  assume a: "nbr \<noteq> 0" "length fs = unat nbr"
    "pin_script w = concat (map frame_levels fs) @ rest"
    "unat nbr \<le> hits (millis_script w)"
  have "unat nbr < 256" using unsigned_less [of nbr, where ?'a = nat] by simp
  then have len: "length fs \<le> 255" using a(2) by simp
  have "0 < unat nbr" using a(1) by (simp add: unat_gt_0)
  then have pos: "0 < sint (ucast nbr :: int32_t)"
    by (simp only: sint_ucast_nbr of_nat_0_less_iff)
  show ?thesis
    using getAverageValue_frames [OF a] sint_sum_frame_values [OF len]
    by (simp add: sint_int32_div [OF pos] sint_ucast_nbr)
qed

theorem getAverageValue_truncated_mean_witness:
  "getAverageValue myScale 4
     \<lparr>pin_script = concat (map frame_levels [(0, 0, 0, 100), (0, 0, 0, 102), (0, 0, 0, 101), (0, 0, 0, 101)]),
      millis_script = [150, 7, 0, 300, 450, 8], serial_in = [], trace = []\<rparr> =
   Returns 101
     \<lparr>pin_script = [], millis_script = [8], serial_in = [],
      trace = concat (map (frame_trace myScale)
        [(0, 0, 0, 100), (0, 0, 0, 102), (0, 0, 0, 101), (0, 0, 0, 101)])\<rparr>"
proof -
  let ?fs = "[(0, 0, 0, 100), (0, 0, 0, 102), (0, 0, 0, 101), (0, 0, 0, 101)] :: frame list"
  let ?w = "\<lparr>pin_script = concat (map frame_levels ?fs),
      millis_script = [150, 7, 0, 300, 450, 8], serial_in = [], trace = []\<rparr>"
  have h1: "(4 :: uint8_t) \<noteq> 0" by simp
  have h2: "length ?fs = unat (4 :: uint8_t)" by simp
  have h3: "pin_script ?w = concat (map frame_levels ?fs) @ []" by simp
  have h4: "unat (4 :: uint8_t) \<le> hits (millis_script ?w)" by (simp add: hits_def)
  have v: "int32_div (sum_list (map frame_value ?fs)) (ucast (4 :: uint8_t)) = 101"
    by (simp add: sample_value_def int32_div_def signed_divide_int_def)
  have "after_hits 4 [150, 7, 0, 300, 450, 8] = [8]" by code_simp
  then have a: "after_hits (unat (4 :: uint8_t)) (millis_script ?w) = [8]" by simp
  from getAverageValue_truncated_mean [OF h1 h2 h3 h4, of myScale, THEN conjunct1]
  show ?thesis unfolding v a by simp
qed

section \<open>Channel and gain selection\<close>

lemma unat_chn_gain_code: "unat (chn_gain_code g) = pulse_count g"
  by (cases g) simp_all

text \<open>
  C9. After the 24 clock pulses that read a sample, \<open>getRawValue\<close> appends exactly
  \<open>N\<close> more clock pulses (high, 2 microseconds, low, 2 microseconds, the data pin
  not read), where \<open>N\<close> is the code of the selected setting: 0 for \<open>NO_CHN\<close>, 1 for
  \<open>CHN_A_128\<close>, 2 for \<open>CHN_B_32\<close> and 3 for \<open>CHN_A_64\<close>.
\<close>

theorem getRawValue_select_pulses:
  "pin_script w = sample_frame k b2 b1 b0 @ rest \<Longrightarrow>
   getRawValue s w =
     Returns (sample_value b2 b1 b0)
       (w\<lparr>pin_script := rest,
          trace := trace w @
            map (DigitalRead (hx_pinDOUT s)) (replicate k True @ [False]) @
            concat (map (read_pulse (hx_pinDOUT s) (hx_pinPD_SCK s))
                      (msb_bits b2 @ msb_bits b1 @ msb_bits b0)) @
            concat (replicate (pulse_count (hx_chn_gain s))
                      [DigitalWrite (hx_pinPD_SCK s) True, DelayMicroseconds 2,
                       DigitalWrite (hx_pinPD_SCK s) False, DelayMicroseconds 2])\<rparr>) \<and>
   length (msb_bits b2 @ msb_bits b1 @ msb_bits b0) = 24 \<and>
   pulse_count NO_CHN = 0 \<and> pulse_count CHN_A_128 = 1 \<and>
   pulse_count CHN_B_32 = 2 \<and> pulse_count CHN_A_64 = 3"
  using getRawValue_frame [of w k b2 b1 b0 rest s]
  by (simp add: sample_trace_def byte_trace_def select_pulse_def unat_chn_gain_code)
     (simp add: msb_bits_def)

theorem getRawValue_select_pulses_witness:
  "getRawValue (myScale\<lparr>hx_chn_gain := CHN_A_64\<rparr>)
     \<lparr>pin_script = True # False # replicate 24 False, millis_script = [], serial_in = [],
      trace = []\<rparr> =
   Returns 0
     \<lparr>pin_script = [], millis_script = [], serial_in = [],
      trace = [DigitalRead 3 True, DigitalRead 3 False] @
        concat (replicate 24
          [DigitalWrite 2 True, DelayMicroseconds 2, DigitalRead 3 False,
           DigitalWrite 2 False, DelayMicroseconds 2]) @
        concat (replicate 3
          [DigitalWrite 2 True, DelayMicroseconds 2,
           DigitalWrite 2 False, DelayMicroseconds 2])\<rparr>"
proof -
  let ?w = "\<lparr>pin_script = True # False # replicate 24 False, millis_script = [],
      serial_in = [], trace = []\<rparr>"
  have h: "pin_script ?w = sample_frame 1 0 0 0 @ []"
    by (simp add: sample_frame_def msb_bits_def eval_nat_numeral)
  from getRawValue_select_pulses [OF h, of "myScale\<lparr>hx_chn_gain := CHN_A_64\<rparr>", THEN conjunct1]
  show ?thesis
    by (simp add: myScale_def new_HX711_GSR_def PIN_DOUT_def PIN_PD_SCK_def sample_value_def
        msb_bits_def read_pulse_def eval_nat_numeral)
qed

section \<open>Division by the count\<close>

text \<open>Nothing before the final division of \<open>getAverageValue\<close> can fault.\<close>

lemma digitalRead_no_fault: "digitalRead pin w \<noteq> DivideFault w'"
  by (simp add: digitalRead_def split: list.splits)

lemma readByte_loop_no_fault: "readByte_loop d c bo i v w \<noteq> DivideFault w'"
proof (induction d c bo i v w rule: readByte_loop.induct)
  case (1 d c bo i v w)
  show ?case
  proof (cases "i < 8")
    case True
    show ?thesis
    proof (cases "digitalRead d (delayMicroseconds 2 (digitalWrite c HIGH w))")
      case (Returns level w1)
      from "1.IH" [OF True Returns] True Returns show ?thesis
        by (subst readByte_loop.simps) (simp split del: split_of_bool)
    next
      case (DivideFault w1)
      then show ?thesis by (simp add: digitalRead_no_fault)
    next
      case OutOfInput
      with True show ?thesis by (subst readByte_loop.simps) simp
    qed
  next
    case False
    then show ?thesis by (subst readByte_loop.simps) simp
  qed
qed

lemma wait_ready_no_fault: "wait_ready pin w \<noteq> DivideFault w'"
proof (induction pin w rule: wait_ready.induct)
  case (1 pin w)
  show ?case
  proof (cases "digitalRead pin w")
    case (Returns level w1)
    show ?thesis
    proof (cases "level \<noteq> LOW")
      case True
      from "1.IH" [OF Returns True] Returns True show ?thesis
        by (subst wait_ready.simps) simp
    next
      case False
      with Returns show ?thesis by (subst wait_ready.simps) simp
    qed
  next
    case (DivideFault w1)
    then show ?thesis by (simp add: digitalRead_no_fault)
  next
    case OutOfInput
    then show ?thesis by (subst wait_ready.simps) simp
  qed
qed

lemma read_bytes_loop_no_fault: "read_bytes_loop s i bytes w \<noteq> DivideFault w'"
proof (induction s i bytes w rule: read_bytes_loop.induct)
  case (1 s i bytes w)
  show ?case
  proof (cases "i < 3")
    case True
    show ?thesis
    proof (cases "readByte (hx_pinDOUT s) (hx_pinPD_SCK s) MSBFIRST w")
      case (Returns byte w1)
      from "1.IH" [OF True Returns] True Returns show ?thesis
        by (subst read_bytes_loop.simps) simp
    next
      case (DivideFault w1)
      then show ?thesis by (simp add: readByte_def readByte_loop_no_fault)
    next
      case OutOfInput
      with True show ?thesis by (subst read_bytes_loop.simps) simp
    qed
  next
    case False
    then show ?thesis by (subst read_bytes_loop.simps) simp
  qed
qed

lemma getRawValue_no_fault: "getRawValue s w \<noteq> DivideFault w'"
  by (simp add: getRawValue_def Let_def wait_ready_no_fault read_bytes_loop_no_fault
      split: outcome.splits)

lemma millis_no_fault: "millis w \<noteq> DivideFault w'"
  by (simp add: millis_def split: list.splits)

lemma average_loop_no_fault: "average_loop s nbr v i w \<noteq> DivideFault w'"
proof (induction s nbr v i w rule: average_loop.induct)
  case (1 s nbr v i w)
  show ?case
  proof (cases "millis w")
    case (Returns t w1)
    show ?thesis
    proof (cases "t mod 150 = 0")
      case True
      show ?thesis
      proof (cases "getRawValue s w1")
        case (Returns raw w2)
        show ?thesis
        proof (cases "i + 1 < nbr")
          case lt: True
          from "1.IH"(1) [OF \<open>millis w = Returns t w1\<close> True Returns lt]
          show ?thesis
            using \<open>millis w = Returns t w1\<close> True Returns lt
            by (subst average_loop.simps) simp
        next
          case False
          then show ?thesis
            using \<open>millis w = Returns t w1\<close> True Returns
            by (subst average_loop.simps) simp
        qed
      next
        case (DivideFault w2)
        then show ?thesis by (simp add: getRawValue_no_fault)
      next
        case OutOfInput
        then show ?thesis
          using \<open>millis w = Returns t w1\<close> True
          by (subst average_loop.simps) simp
      qed
    next
      case False
      show ?thesis
      proof (cases "i < nbr")
        case lt: True
        from "1.IH"(2) [OF Returns False lt] show ?thesis
          using Returns False lt by (subst average_loop.simps) simp
      next
        case ge: False
        then show ?thesis
          using Returns False by (subst average_loop.simps) simp
      qed
    qed
  next
    case (DivideFault w1)
    then show ?thesis by (simp add: millis_no_fault)
  next
    case OutOfInput
    then show ?thesis by (subst average_loop.simps) simp
  qed
qed

text \<open>
  C4, as the code has it. \<open>getAverageValue\<close> does not check its count. The division
  \<open>sum / count\<close> has a zero divisor only for the count 0; with the count 0 the call
  is not rejected and never returns a value: the body of the loop still runs once
  (here at a clock value at which no sample is taken) and the division by zero
  follows.
\<close>

theorem getAverageValue_zero_count:
  "(getAverageValue s nbr w = DivideFault w' \<longrightarrow> nbr = 0) \<and>
   (nbr = 0 \<longrightarrow> getAverageValue s nbr w \<noteq> Returns a w'') \<and>
   (nbr = 0 \<and> millis_script w = t # ts \<and> t mod 150 \<noteq> 0 \<longrightarrow>
      getAverageValue s nbr w = DivideFault (w\<lparr>millis_script := ts\<rparr>))"
proof (intro conjI impI)
  assume "getAverageValue s nbr w = DivideFault w'"
  then show "nbr = 0"
    by (auto simp: getAverageValue_def average_loop_no_fault split: outcome.splits if_splits)
next
  assume "nbr = 0"
  then show "getAverageValue s nbr w \<noteq> Returns a w''"
    by (simp add: getAverageValue_def split: outcome.splits)
next
  assume a: "nbr = 0 \<and> millis_script w = t # ts \<and> t mod 150 \<noteq> 0"
  then have "average_loop s nbr 0 0 w = Returns 0 (w\<lparr>millis_script := ts\<rparr>)"
    using average_loop_miss [of w t ts s nbr 0 0] by simp
  with a show "getAverageValue s nbr w = DivideFault (w\<lparr>millis_script := ts\<rparr>)"
    by (simp add: getAverageValue_def)
qed

theorem getAverageValue_zero_count_witness:
  "getAverageValue myScale 0
     \<lparr>pin_script = [], millis_script = [7], serial_in = [], trace = []\<rparr> =
   DivideFault \<lparr>pin_script = [], millis_script = [], serial_in = [], trace = []\<rparr>"
  using getAverageValue_zero_count [of myScale 0
      "\<lparr>pin_script = [], millis_script = [7], serial_in = [], trace = []\<rparr>" _ _ _ 7 "[]"]
  by simp

text \<open>
  C4, as stated, fails: with the count 0 and a clock value at which a sample is taken,
  the call reads a whole sample from the board and then divides by zero.
\<close>

theorem getAverageValue_zero_count_counterexample:
  "getAverageValue myScale 0
     \<lparr>pin_script = frame_levels (0, 0, 0, 100), millis_script = [150], serial_in = [],
      trace = []\<rparr> =
   DivideFault
     \<lparr>pin_script = [], millis_script = [], serial_in = [],
      trace = frame_trace myScale (0, 0, 0, 100)\<rparr>"
proof -
  let ?w = "\<lparr>pin_script = frame_levels (0, 0, 0, 100), millis_script = [150],
      serial_in = [], trace = []\<rparr>"
  have "average_loop myScale 0 0 0 ?w =
      Returns (0 + frame_value (0, 0, 0, 100))
        (?w\<lparr>pin_script := [], millis_script := [], trace := trace ?w @ frame_trace myScale (0, 0, 0, 100)\<rparr>)"
    using average_loop_hit [of ?w 150 "[]" "(0, 0, 0, 100)" "[]" myScale 0 0 0] by simp
  then show ?thesis by (simp add: getAverageValue_def)
qed

section \<open>The commands\<close>

lemma parse_loop_last:
  "parse_loop r w = (last (r # serial_in w), w\<lparr>serial_in := []\<rparr>)"
proof (induction "serial_in w" arbitrary: r w)
  case Nil
  then show ?case
    by (subst parse_loop.simps) (simp add: Serial_available_def)
next
  case (Cons x xs)
  have si: "serial_in w = x # xs" using Cons.hyps(2) by simp
  have "parse_loop r w = parse_loop x (w\<lparr>serial_in := xs\<rparr>)"
    using si by (subst parse_loop.simps) (simp add: Serial_available_def Serial_parseInt_def)
  also have "\<dots> = (last (x # serial_in (w\<lparr>serial_in := xs\<rparr>)),
      (w\<lparr>serial_in := xs\<rparr>)\<lparr>serial_in := []\<rparr>)"
    by (rule Cons.hyps(1)) simp
  finally show ?case using si by simp
qed

text \<open>
  C7. \<open>enterRefWeight\<close> takes the last integer on the serial line (\<open>-1\<close> when there
  is none) as the reference weight in grams. It accepts it exactly when
  \<open>maxLoad / 10 \<le> grams \<le> maxLoad\<close>; otherwise it prints the range error and leaves
  the object as it is. With the maximum load 1000 the bounds are 100 and 1000.
\<close>

theorem enterRefWeight_range:
  "enterRefWeight s w =
     (if sint (int32_div (hx_gramsMaxLoad s) 10) \<le> sint (last (- 1 # serial_in w)) \<and>
         sint (last (- 1 # serial_in w)) \<le> sint (hx_gramsMaxLoad s)
      then (s\<lparr>hx_gramsRefWeight := last (- 1 # serial_in w)\<rparr>,
            w\<lparr>serial_in := [],
               trace := trace w @ [Delay 2000,
                 SerialPrint ''Reference weight set to %ld '' [ArgInt (last (- 1 # serial_in w))]]\<rparr>)
      else (s,
            w\<lparr>serial_in := [],
               trace := trace w @ [Delay 2000,
                 SerialPrint ''Value out of range, allowed: %ld .. %ld [grams] ''
                   [ArgInt (int32_div (hx_gramsMaxLoad s) 10), ArgInt (hx_gramsMaxLoad s)]]\<rparr>)) \<and>
   (hx_gramsMaxLoad s = 1000 \<longrightarrow>
      sint (int32_div (hx_gramsMaxLoad s) 10) = 100 \<and> sint (hx_gramsMaxLoad s) = 1000)"
  by (auto simp: enterRefWeight_def parse_loop_last delay_def emit_def Serial_print_def
      getMaxLoad_def set_wref_def get_wref_def int32_div_def signed_divide_int_def)

theorem enterRefWeight_range_witness:
  "fst (enterRefWeight myScale \<lparr>pin_script = [], millis_script = [], serial_in = [100], trace = []\<rparr>)
     = myScale\<lparr>hx_gramsRefWeight := 100\<rparr> \<and>
   fst (enterRefWeight myScale \<lparr>pin_script = [], millis_script = [], serial_in = [7, 1000], trace = []\<rparr>)
     = myScale\<lparr>hx_gramsRefWeight := 1000\<rparr> \<and>
   enterRefWeight myScale \<lparr>pin_script = [], millis_script = [], serial_in = [99], trace = []\<rparr>
     = (myScale, \<lparr>pin_script = [], millis_script = [], serial_in = [],
          trace = [Delay 2000, SerialPrint ''Value out of range, allowed: %ld .. %ld [grams] ''
                     [ArgInt 100, ArgInt 1000]]\<rparr>) \<and>
   fst (enterRefWeight myScale \<lparr>pin_script = [], millis_script = [], serial_in = [1001], trace = []\<rparr>)
     = myScale \<and>
   fst (enterRefWeight myScale \<lparr>pin_script = [], millis_script = [], serial_in = [], trace = []\<rparr>)
     = myScale"
  using enterRefWeight_range [of myScale "\<lparr>pin_script = [], millis_script = [], serial_in = [100], trace = []\<rparr>"]
    enterRefWeight_range [of myScale "\<lparr>pin_script = [], millis_script = [], serial_in = [7, 1000], trace = []\<rparr>"]
    enterRefWeight_range [of myScale "\<lparr>pin_script = [], millis_script = [], serial_in = [99], trace = []\<rparr>"]
    enterRefWeight_range [of myScale "\<lparr>pin_script = [], millis_script = [], serial_in = [1001], trace = []\<rparr>"]
    enterRefWeight_range [of myScale "\<lparr>pin_script = [], millis_script = [], serial_in = [], trace = []\<rparr>"]
  by (simp add: myScale_def new_HX711_GSR_def maxLoad_def int32_div_def signed_divide_int_def)

text \<open>
  C6. In every state whose reference weight is negative (not entered) or whose zero
  code is 0 (not captured), the command \<open>calibrate\<close> prints its precondition error
  and returns: the object, with its reference code, slope and intercept, is unchanged
  and the board is not read.
\<close>

theorem loadCell_calibrate_precondition:
  "sint (hx_gramsRefWeight s) < 0 \<or> hx_v0 s = 0 \<Longrightarrow>
   loadCell_calibrate s w =
     Returns s (w\<lparr>trace := trace w @
       [SerialPrint (if sint (hx_gramsRefWeight s) < 0 then ''First enter reference weight! ''
                     else ''First Set 0 (Tare) '') []]\<rparr>)"
  by (auto simp: loadCell_calibrate_def get_wref_def get_v0_def Serial_print_def emit_def)

theorem loadCell_calibrate_precondition_witness:
  "loadCell_calibrate myScale
     \<lparr>pin_script = [False], millis_script = [0], serial_in = [], trace = []\<rparr> =
   Returns myScale
     \<lparr>pin_script = [False], millis_script = [0], serial_in = [],
      trace = [SerialPrint ''First enter reference weight! '' []]\<rparr> \<and>
   loadCell_calibrate (myScale\<lparr>hx_gramsRefWeight := 500\<rparr>)
     \<lparr>pin_script = [False], millis_script = [0], serial_in = [], trace = []\<rparr> =
   Returns (myScale\<lparr>hx_gramsRefWeight := 500\<rparr>)
     \<lparr>pin_script = [False], millis_script = [0], serial_in = [],
      trace = [SerialPrint ''First Set 0 (Tare) '' []]\<rparr>"
  using loadCell_calibrate_precondition [of myScale
      "\<lparr>pin_script = [False], millis_script = [0], serial_in = [], trace = []\<rparr>"]
    loadCell_calibrate_precondition [of "myScale\<lparr>hx_gramsRefWeight := 500\<rparr>"
      "\<lparr>pin_script = [False], millis_script = [0], serial_in = [], trace = []\<rparr>"]
  by (simp add: myScale_def new_HX711_GSR_def)

section \<open>Rounding to binary64\<close>

lemma exponent2_bounds:
  assumes "x \<noteq> 0"
  shows "2 powi exponent2 x \<le> \<bar>x\<bar>" "\<bar>x\<bar> < 2 powi (exponent2 x + 1)"
proof -
  have "2 powi exponent2 x \<le> \<bar>x\<bar> \<and> \<bar>x\<bar> < 2 powi (exponent2 x + 1)"
  proof (cases "1 \<le> \<bar>x\<bar>")
    case True
    let ?n = "\<lfloor>\<bar>x\<bar>\<rfloor>"
    have n: "0 < ?n" using True by simp
    from bitlen_bounds [OF n] have b: "2 ^ nat (bitlen ?n - 1) \<le> ?n" "?n < 2 ^ nat (bitlen ?n)"
      by simp_all
    have pos: "0 < bitlen ?n" using n bitlen_eq_zero_iff [of ?n] bitlen_nonneg [of ?n] by linarith
    have e: "exponent2 x = bitlen ?n - 1" using True by (simp add: exponent2_def)
    have p1: "(2::real) powi (bitlen ?n - 1) = 2 ^ nat (bitlen ?n - 1)"
      using pos by (simp add: power_int_def)
    have p2: "(2::real) powi (bitlen ?n - 1 + 1) = 2 ^ nat (bitlen ?n)"
      using pos by (simp add: power_int_def)
    have "real_of_int (2 ^ nat (bitlen ?n - 1)) \<le> real_of_int ?n" using b(1) by (simp only: of_int_le_iff)
    then have "(2::real) ^ nat (bitlen ?n - 1) \<le> real_of_int ?n" by simp
    moreover have "real_of_int ?n \<le> \<bar>x\<bar>" by (rule of_int_floor_le)
    ultimately have l: "(2::real) ^ nat (bitlen ?n - 1) \<le> \<bar>x\<bar>" by (rule order_trans)
    have "?n + 1 \<le> 2 ^ nat (bitlen ?n)" using b(2) by simp
    then have "real_of_int (?n + 1) \<le> real_of_int (2 ^ nat (bitlen ?n))" by (simp only: of_int_le_iff)
    then have "real_of_int ?n + 1 \<le> 2 ^ nat (bitlen ?n)" by simp
    moreover have "\<bar>x\<bar> < real_of_int ?n + 1" by linarith
    ultimately have u: "\<bar>x\<bar> < (2::real) ^ nat (bitlen ?n)" by (rule less_le_trans [rotated])
    from l u show ?thesis unfolding e p1 p2 by simp
  next
    case False
    let ?y = "1 / \<bar>x\<bar>"
    let ?c = "\<lceil>?y\<rceil>"
    have x: "0 < \<bar>x\<bar>" "\<bar>x\<bar> < 1" using assms False by simp_all
    then have y: "1 < ?y" by simp
    then have c: "2 \<le> ?c" by (simp add: le_ceiling_iff)
    then have n: "0 < ?c - 1" by simp
    let ?j = "bitlen (?c - 1)"
    from bitlen_bounds [OF n] have b: "2 ^ nat (?j - 1) \<le> ?c - 1" "?c - 1 < 2 ^ nat ?j"
      by simp_all
    have pos: "0 < ?j" using n bitlen_eq_zero_iff [of "?c - 1"] bitlen_nonneg [of "?c - 1"] by linarith
    have e: "exponent2 x = - ?j" using False by (simp add: exponent2_def)
    have "?c \<le> 2 ^ nat ?j" using b(2) by simp
    then have "real_of_int ?c \<le> real_of_int (2 ^ nat ?j)" by (simp only: of_int_le_iff)
    then have "real_of_int ?c \<le> 2 ^ nat ?j" by simp
    moreover have "?y \<le> real_of_int ?c" by (rule le_of_int_ceiling)
    ultimately have yu: "?y \<le> 2 ^ nat ?j" by (rule order_trans [rotated])
    have "real_of_int (2 ^ nat (?j - 1)) \<le> real_of_int (?c - 1)" using b(1) by (simp only: of_int_le_iff)
    then have "(2::real) ^ nat (?j - 1) \<le> real_of_int ?c - 1" by simp
    moreover have "real_of_int ?c - 1 < ?y" by linarith
    ultimately have yl: "(2::real) ^ nat (?j - 1) < ?y" by (rule le_less_trans)
    have p1: "(2::real) powi (- ?j) = 1 / 2 ^ nat ?j"
      using pos by (simp add: power_int_def field_simps)
    have p2: "(2::real) powi (- ?j + 1) = 1 / 2 ^ nat (?j - 1)"
      using pos by (simp add: power_int_def field_simps)
    have l: "1 / 2 ^ nat ?j \<le> \<bar>x\<bar>"
      using yu x(1) by (simp add: field_simps)
    have u: "\<bar>x\<bar> < 1 / 2 ^ nat (?j - 1)"
      using yl x(1) by (simp add: field_simps)
    from l u show ?thesis unfolding e p1 p2 by simp
  qed
  then show "2 powi exponent2 x \<le> \<bar>x\<bar>" "\<bar>x\<bar> < 2 powi (exponent2 x + 1)" by simp_all
qed

lemma round_to_even_error: "\<bar>real_of_int (round_to_even y) - y\<bar> \<le> 1 / 2"
proof -
  define f where "f = \<lfloor>y\<rfloor>"
  define d where "d = y - real_of_int f"
  have d: "0 \<le> d" "d < 1" unfolding d_def f_def by linarith+
  have y: "y = real_of_int f + d" by (simp add: d_def)
  have "round_to_even y =
      (if d < 1 / 2 then f else if 1 / 2 < d then f + 1 else if even f then f else f + 1)"
    by (simp add: round_to_even_def Let_def f_def d_def)
  then show ?thesis
    unfolding y using d by (auto simp: abs_if)
qed

lemma round_binary64_error:
  assumes "\<bar>x\<bar> \<le> 2 powi 1023"
  shows "\<exists>r. round_binary64 x = Finite r \<and>
           \<bar>r - x\<bar> \<le> 2 powi (max (exponent2 x) (- 1022) - 53) \<and>
           (x = 0 \<longrightarrow> r = 0)"
proof (cases "x = 0")
  case True
  then show ?thesis by (simp add: round_binary64_def)
next
  case False
  define e where "e = max (exponent2 x) (- 1022)"
  define q :: real where "q = 2 powi (e - 52)"
  define r where "r = real_of_int (round_to_even (x / q)) * q"
  have q: "0 < q" by (simp add: q_def zero_less_power_int)
  have "r - x = q * (real_of_int (round_to_even (x / q)) - x / q)"
    using q by (simp add: r_def algebra_simps)
  then have "\<bar>r - x\<bar> = q * \<bar>real_of_int (round_to_even (x / q)) - x / q\<bar>"
    using q by (simp add: abs_mult)
  also have "\<dots> \<le> q * (1 / 2)"
    using q round_to_even_error [of "x / q"] by (intro mult_left_mono) simp_all
  also have "\<dots> = 2 powi (e - 53)"
    using power_int_add [of "2::real" "e - 53" 1] by (simp add: q_def)
  finally have err: "\<bar>r - x\<bar> \<le> 2 powi (e - 53)" .
  have "e \<le> 1023"
  proof -
    have "2 powi exponent2 x \<le> (2::real) powi 1023"
      using exponent2_bounds(1) [OF False] assms by linarith
    then have "exponent2 x \<le> 1023" by (rule power_int_le_imp_le_exp [rotated]) simp_all
    then show ?thesis by (simp add: e_def)
  qed
  then have "(2::real) powi (e - 53) \<le> 2 powi 970"
    by (intro power_int_increasing) simp_all
  with err assms have "\<bar>r\<bar> \<le> 2 powi 1023 + 2 powi 970" by linarith
  also have "\<dots> < (2::real) powi 1024" by simp
  finally have "\<not> 2 powi 1024 \<le> \<bar>r\<bar>" by simp
  then have "round_binary64 x = Finite r"
    using False by (simp add: round_binary64_def Let_def r_def q_def e_def)
  with err False show ?thesis by (auto simp: e_def)
qed


lemma round_binary64_0: "round_binary64 0 = Finite 0"
  by (simp add: round_binary64_def)

lemma round_binary64_finite:
  assumes "\<bar>x\<bar> \<le> 2 ^ 1000"
  shows "\<exists>r. round_binary64 x = Finite r \<and> \<bar>r\<bar> \<le> 2 * \<bar>x\<bar> + 1"
proof -
  have "(2::real) ^ 1000 \<le> 2 powi 1023" by simp
  with assms have a: "\<bar>x\<bar> \<le> 2 powi 1023" by linarith
  from round_binary64_error [OF a] obtain r where r: "round_binary64 x = Finite r"
    and e: "\<bar>r - x\<bar> \<le> 2 powi (max (exponent2 x) (- 1022) - 53)" and z: "x = 0 \<longrightarrow> r = 0"
    by blast
  have "\<bar>r\<bar> \<le> 2 * \<bar>x\<bar> + 1"
  proof (cases "x = 0")
    case True
    with z show ?thesis by simp
  next
    case False
    show ?thesis
    proof (cases "- 1022 \<le> exponent2 x")
      case True
      then have "(2::real) powi (max (exponent2 x) (- 1022) - 53) \<le> 2 powi exponent2 x"
        by (simp add: max_def power_int_increasing)
      with exponent2_bounds(1) [OF False] e show ?thesis by linarith
    next
      case f: False
      then have "(2::real) powi (max (exponent2 x) (- 1022) - 53) = 2 powi (- 1075)"
        by (simp add: max_def)
      also have "\<dots> \<le> 1" by simp
      finally show ?thesis using e by linarith
    qed
  qed
  with r show ?thesis by blast
qed

lemma round_binary64_rel:
  assumes "x = 0 \<or> 1 / 2 ^ 200 \<le> \<bar>x\<bar>" and "\<bar>x\<bar> \<le> 2 ^ 200"
  shows "\<exists>r. round_binary64 x = Finite r \<and> \<bar>r - x\<bar> \<le> \<bar>x\<bar> / 2 ^ 53"
proof (cases "x = 0")
  case True
  then show ?thesis by (simp add: round_binary64_0)
next
  case False
  with assms(1) have lo: "1 / 2 ^ 200 \<le> \<bar>x\<bar>" by simp
  have "(2::real) ^ 200 \<le> 2 powi 1023" by simp
  with assms(2) have a: "\<bar>x\<bar> \<le> 2 powi 1023" by linarith
  from round_binary64_error [OF a] obtain r where r: "round_binary64 x = Finite r"
    and e: "\<bar>r - x\<bar> \<le> 2 powi (max (exponent2 x) (- 1022) - 53)"
    by blast
  have "(2::real) powi (- 1022) \<le> 1 / 2 ^ 200" by (simp add: power_int_minus_divide)
  with lo exponent2_bounds(2) [OF False] have "(2::real) powi (- 1022) < 2 powi (exponent2 x + 1)"
    by linarith
  then have "- 1022 < exponent2 x + 1"
    by (metis linorder_not_less one_le_numeral power_int_increasing)
  then have m: "max (exponent2 x) (- 1022) = exponent2 x" by simp
  have "(2::real) powi (exponent2 x - 53) = 2 powi exponent2 x / 2 ^ 53"
    by (simp add: power_int_diff)
  also have "\<dots> \<le> \<bar>x\<bar> / 2 ^ 53"
    using exponent2_bounds(1) [OF False] by (simp add: divide_right_mono)
  finally show ?thesis using r e unfolding m by (intro exI [of _ r]) simp
qed

lemma two_roundings:
  assumes a: "a = 0 \<or> 1 / 2 ^ 100 \<le> \<bar>a\<bar>" "\<bar>a\<bar> \<le> 2 ^ 100"
    and c: "c = 0 \<or> 1 / 2 ^ 90 \<le> \<bar>c\<bar>" "\<bar>c\<bar> \<le> 2 ^ 90"
  shows "\<exists>r1 r. round_binary64 a = Finite r1 \<and> round_binary64 (r1 * c) = Finite r \<and>
     \<bar>r1 - a\<bar> \<le> \<bar>a\<bar> / 2 ^ 53 \<and> \<bar>r - a * c\<bar> \<le> \<bar>a * c\<bar> / 2 ^ 51"
proof -
  have a1: "a = 0 \<or> 1 / 2 ^ 200 \<le> \<bar>a\<bar>" using a(1) by auto
  have a2: "\<bar>a\<bar> \<le> 2 ^ 200" using a(2) by simp
  from round_binary64_rel [OF a1 a2] obtain r1 where
    r1: "round_binary64 a = Finite r1" "\<bar>r1 - a\<bar> \<le> \<bar>a\<bar> / 2 ^ 53" by blast
  have "\<bar>a\<bar> / 2 ^ 53 \<le> \<bar>a\<bar> / 2" by (intro divide_left_mono) simp_all
  with r1(2) have h: "\<bar>r1 - a\<bar> \<le> \<bar>a\<bar> / 2" by linarith
  have hi: "\<bar>r1\<bar> \<le> 2 * \<bar>a\<bar>" using h by linarith
  have lo: "\<bar>a\<bar> / 2 \<le> \<bar>r1\<bar>" using h by linarith
  have x1: "r1 * c = 0 \<or> 1 / 2 ^ 200 \<le> \<bar>r1 * c\<bar>"
  proof (cases "a = 0 \<or> c = 0")
    case True
    then show ?thesis using r1(2) by auto
  next
    case False
    with a(1) c(1) have l: "1 / 2 ^ 100 \<le> \<bar>a\<bar>" "1 / 2 ^ 90 \<le> \<bar>c\<bar>" by simp_all
    have "(1::real) / 2 ^ 101 = 1 / 2 ^ 100 / 2" by simp
    also have "\<dots> \<le> \<bar>a\<bar> / 2" by (rule divide_right_mono [OF l(1)]) simp
    also note lo
    finally have "1 / 2 ^ 101 \<le> \<bar>r1\<bar>" .
    then have "1 / 2 ^ 101 * (1 / 2 ^ 90) \<le> \<bar>r1\<bar> * \<bar>c\<bar>"
      using l(2) by (intro mult_mono) simp_all
    then have "1 / 2 ^ 200 \<le> \<bar>r1 * c\<bar>" by (simp add: abs_mult)
    then show ?thesis by simp
  qed
  note hi
  also have "2 * \<bar>a\<bar> \<le> 2 * 2 ^ 100" by (rule mult_left_mono [OF a(2)]) simp
  also have "\<dots> = (2::real) ^ 101" by simp
  finally have "\<bar>r1\<bar> \<le> 2 ^ 101" .
  then have "\<bar>r1\<bar> * \<bar>c\<bar> \<le> 2 ^ 101 * 2 ^ 90" using c(2) by (intro mult_mono) simp_all
  then have x2: "\<bar>r1 * c\<bar> \<le> 2 ^ 200" by (simp add: abs_mult)
  from round_binary64_rel [OF x1 x2] obtain r where
    r: "round_binary64 (r1 * c) = Finite r" "\<bar>r - r1 * c\<bar> \<le> \<bar>r1 * c\<bar> / 2 ^ 53" by blast
  have "\<bar>r1 * c\<bar> = \<bar>r1\<bar> * \<bar>c\<bar>" by (simp add: abs_mult)
  also have "\<dots> \<le> 2 * \<bar>a\<bar> * \<bar>c\<bar>" using hi by (intro mult_right_mono) simp_all
  finally have e1: "\<bar>r1 * c\<bar> \<le> 2 * \<bar>a * c\<bar>" by (simp add: abs_mult)
  have "r1 * c - a * c = (r1 - a) * c" by (simp add: algebra_simps)
  then have "\<bar>r1 * c - a * c\<bar> = \<bar>r1 - a\<bar> * \<bar>c\<bar>" by (simp add: abs_mult)
  also have "\<dots> \<le> \<bar>a\<bar> / 2 ^ 53 * \<bar>c\<bar>" using r1(2) by (intro mult_right_mono) simp_all
  finally have e2: "\<bar>r1 * c - a * c\<bar> \<le> \<bar>a * c\<bar> / 2 ^ 53" by (simp add: abs_mult)
  have e3: "\<bar>r - a * c\<bar> \<le> \<bar>r - r1 * c\<bar> + \<bar>r1 * c - a * c\<bar>" by linarith
  have "\<bar>r1 * c\<bar> / 2 ^ 53 \<le> 2 * \<bar>a * c\<bar> / 2 ^ 53" using e1 by (intro divide_right_mono) simp_all
  with r(2) have e4: "\<bar>r - r1 * c\<bar> \<le> 2 * \<bar>a * c\<bar> / 2 ^ 53" by linarith
  have "\<bar>a * c\<bar> / 2 ^ 51 = 4 * (\<bar>a * c\<bar> / 2 ^ 53)" by simp
  with e2 e3 e4 have "\<bar>r - a * c\<bar> \<le> \<bar>a * c\<bar> / 2 ^ 51" by linarith
  with r1 r(1) show ?thesis by blast
qed

lemma powi_less_exp: "(2::real) powi a < 2 powi b \<Longrightarrow> a < b"
proof (rule ccontr)
  assume l: "(2::real) powi a < 2 powi b" and "\<not> a < b"
  then have "b \<le> a" by simp
  then have "(2::real) powi b \<le> 2 powi a" by (rule power_int_increasing) simp
  with l show False by simp
qed

lemma powi_le_exp: "(2::real) powi a \<le> 2 powi b \<Longrightarrow> a \<le> b"
proof (rule ccontr)
  assume l: "(2::real) powi a \<le> 2 powi b" and "\<not> a \<le> b"
  then have "b < a" by simp
  then have "(2::real) powi b < 2 powi a" by (rule power_int_strict_increasing) simp
  with l show False by simp
qed

lemma round_to_even_near:
  assumes "\<bar>d\<bar> < 1 / 2 \<or> even K \<and> \<bar>d\<bar> \<le> 1 / 2"
  shows "round_to_even (real_of_int K + d) = K"
proof (cases "0 \<le> d")
  case True
  with assms have d: "d < 1" by auto
  have f: "\<lfloor>real_of_int K + d\<rfloor> = K" using True d by linarith
  show ?thesis unfolding round_to_even_def Let_def f using assms True by auto
next
  case False
  with assms have d: "- 1 < d" by auto
  have f: "\<lfloor>real_of_int K + d\<rfloor> = K - 1" using False d by linarith
  show ?thesis unfolding round_to_even_def Let_def f using assms False by auto
qed

lemma exponent2_unique:
  assumes "2 powi k \<le> \<bar>x\<bar>" "\<bar>x\<bar> < 2 powi (k + 1)"
  shows "exponent2 x = k"
proof -
  have "0 < (2::real) powi k" by (rule zero_less_power_int) simp
  with assms(1) have "0 < \<bar>x\<bar>" by linarith
  then have x: "x \<noteq> 0" by simp
  from exponent2_bounds [OF x] assms
  have "(2::real) powi exponent2 x < 2 powi (k + 1)" "(2::real) powi k < 2 powi (exponent2 x + 1)"
    by linarith+
  then have "exponent2 x < k + 1" "k < exponent2 x + 1"
    by (auto dest: powi_less_exp)
  then show ?thesis by simp
qed

lemma round_binary64_grid:
  assumes x: "x \<noteq> 0" and e: "- 1022 \<le> exponent2 x" "exponent2 x \<le> 1000"
    and g: "x / 2 powi (exponent2 x - 52) = real_of_int K + d"
    and d: "\<bar>d\<bar> < 1 / 2 \<or> even K \<and> \<bar>d\<bar> \<le> 1 / 2"
  shows "round_binary64 x = Finite (real_of_int K * 2 powi (exponent2 x - 52))"
proof -
  define q :: real where "q = 2 powi (exponent2 x - 52)"
  have q: "0 < q" by (simp add: q_def)
  have m: "max (exponent2 x) (- 1022) = exponent2 x" using e(1) by simp
  have r: "round_to_even (x / q) = K" using round_to_even_near [OF d] g by (simp add: q_def)
  have "\<bar>x / q\<bar> < 2 ^ 53"
  proof -
    have "\<bar>x\<bar> < 2 powi (exponent2 x + 1)" by (rule exponent2_bounds(2) [OF x])
    also have "\<dots> = q * 2 ^ 53" by (simp add: q_def power_int_add power_int_diff)
    finally show ?thesis using q by (simp add: field_simps)
  qed
  with g have "\<bar>real_of_int K + d\<bar> < 2 ^ 53" by (simp add: q_def)
  with d have "\<bar>real_of_int K\<bar> < 2 ^ 53 + 1" by linarith
  then have K: "\<bar>real_of_int K\<bar> \<le> 2 ^ 54" by simp
  have "q \<le> 2 powi 948" unfolding q_def using e(2) by (intro power_int_increasing) simp_all
  with K have "\<bar>real_of_int K\<bar> * q \<le> 2 ^ 54 * 2 powi 948" using q by (intro mult_mono) simp_all
  also have "\<dots> < 2 powi 1024" by simp
  finally have "\<not> 2 powi 1024 \<le> \<bar>real_of_int K * q\<bar>" using q by (simp add: abs_mult)
  then show ?thesis using x unfolding round_binary64_def m Let_def q_def [symmetric] r by simp
qed

lemma round_binary64_int:
  assumes "\<bar>n\<bar> \<le> 2 ^ 53"
  shows "round_binary64 (real_of_int n) = Finite (real_of_int n)"
proof (cases "n = 0")
  case True
  then show ?thesis by (simp add: round_binary64_0)
next
  case False
  define x where "x = real_of_int n"
  define e where "e = exponent2 x"
  have x: "x \<noteq> 0" using False by (simp add: x_def)
  have "1 \<le> \<bar>n\<bar>" using False by linarith
  then have "real_of_int 1 \<le> real_of_int \<bar>n\<bar>" by (simp only: of_int_le_iff)
  then have lo: "1 \<le> \<bar>x\<bar>" by (simp add: x_def)
  have "real_of_int \<bar>n\<bar> \<le> real_of_int (2 ^ 53)" using assms by (simp only: of_int_le_iff)
  then have hi: "\<bar>x\<bar> \<le> 2 ^ 53" by (simp add: x_def)
  have "(2::real) powi 0 < 2 powi (e + 1)"
    using lo exponent2_bounds(2) [OF x] by (simp add: e_def)
  then have "0 < e + 1" by (rule powi_less_exp)
  then have e0: "0 \<le> e" by simp
  have "(2::real) powi e \<le> 2 powi 53"
    using hi exponent2_bounds(1) [OF x] by (simp add: e_def)
  then have e53: "e \<le> 53" by (rule powi_le_exp)
  show ?thesis
  proof (cases "e = 53")
    case True
    have "2 ^ 53 \<le> \<bar>x\<bar>" using exponent2_bounds(1) [OF x] True by (simp add: e_def)
    then have "real_of_int (2 ^ 53) \<le> real_of_int \<bar>n\<bar>" by (simp add: x_def)
    then have "2 ^ 53 \<le> \<bar>n\<bar>" by (simp only: of_int_le_iff)
    with assms have nn: "n = 2 ^ 53 \<or> n = - (2 ^ 53)" by linarith
    then have g: "x / 2 powi (exponent2 x - 52) = real_of_int (n div 2) + 0"
      unfolding e_def [symmetric] True
      by (auto simp add: x_def)
    from round_binary64_grid [OF x _ _ g] True
    have "round_binary64 x = Finite (real_of_int (n div 2) * 2 powi (e - 52))"
      by (simp add: e_def)
    moreover have "real_of_int (n div 2) * 2 = x"
      using nn by (auto simp add: x_def)
    ultimately show ?thesis unfolding True by (simp add: x_def)
  next
    case False
    with e53 have le: "e \<le> 52" by simp
    define k where "k = nat (52 - e)"
    have p: "(2::real) powi (e - 52) = 1 / 2 ^ k"
      using le by (simp add: k_def power_int_def field_simps)
    have g: "x / 2 powi (exponent2 x - 52) = real_of_int (n * 2 ^ k) + 0"
      unfolding e_def [symmetric] p by (simp add: x_def)
    from round_binary64_grid [OF x _ _ g] e0 le
    have "round_binary64 x = Finite (real_of_int (n * 2 ^ k) * 2 powi (e - 52))"
      by (simp add: e_def)
    then show ?thesis unfolding p by (simp add: x_def)
  qed
qed

lemma round_real_between:
  assumes "real_of_int j - 1 / 2 < x" "x < real_of_int j + 1 / 2"
  shows "round_real x = real_of_int j"
proof (cases "0 \<le> x")
  case True
  have "\<lfloor>x + 1 / 2\<rfloor> = j" using assms by linarith
  with True show ?thesis by (simp add: round_real_def)
next
  case False
  have "\<lfloor>- x + 1 / 2\<rfloor> = - j" using assms by linarith
  with False show ?thesis by (simp add: round_real_def)
qed

lemma half_integer_distance:
  assumes d: "d \<noteq> 0" and n: "10 * (real_of_int p / real_of_int d) \<noteq> real_of_int k + 1 / 2"
  shows "1 / (2 * \<bar>real_of_int d\<bar>) \<le> \<bar>10 * (real_of_int p / real_of_int d) - (real_of_int k + 1 / 2)\<bar>"
proof -
  define N where "N = 20 * p - (2 * k + 1) * d"
  have D: "real_of_int d \<noteq> 0" using d by simp
  have e: "10 * (real_of_int p / real_of_int d) - (real_of_int k + 1 / 2) =
      real_of_int N / (2 * real_of_int d)"
    using D by (simp add: N_def field_simps)
  have "N \<noteq> 0"
  proof
    assume "N = 0"
    with e have "10 * (real_of_int p / real_of_int d) - (real_of_int k + 1 / 2) = 0" by simp
    with n show False by simp
  qed
  then have "1 \<le> \<bar>N\<bar>" by linarith
  then have "real_of_int 1 \<le> real_of_int \<bar>N\<bar>" by (simp only: of_int_le_iff)
  then have "1 \<le> \<bar>real_of_int N\<bar>" by simp
  then have "1 / (2 * \<bar>real_of_int d\<bar>) \<le> \<bar>real_of_int N\<bar> / (2 * \<bar>real_of_int d\<bar>)"
    by (intro divide_right_mono) simp_all
  also have "\<dots> = \<bar>real_of_int N / (2 * real_of_int d)\<bar>" by (simp add: abs_mult)
  finally show ?thesis unfolding e .
qed

lemma quotient_bounds:
  assumes d: "d \<noteq> 0" "\<bar>d\<bar> \<le> 2 ^ 31" and p: "\<bar>p\<bar> \<le> 2 ^ 45"
  shows "real_of_int p / real_of_int d = 0 \<or> 1 / 2 ^ 100 \<le> \<bar>real_of_int p / real_of_int d\<bar>"
    and "\<bar>real_of_int p / real_of_int d\<bar> \<le> 2 ^ 100"
    and "\<bar>real_of_int p / real_of_int d\<bar> \<le> 2 ^ 45 / \<bar>real_of_int d\<bar>"
proof -
  define P where "P = real_of_int p"
  define D where "D = real_of_int d"
  have "1 \<le> \<bar>d\<bar>" using d(1) by linarith
  then have "real_of_int 1 \<le> real_of_int \<bar>d\<bar>" by (simp only: of_int_le_iff)
  then have D1: "1 \<le> \<bar>D\<bar>" by (simp add: D_def)
  have "real_of_int \<bar>d\<bar> \<le> real_of_int (2 ^ 31)" using d(2) by (simp only: of_int_le_iff)
  then have D2: "\<bar>D\<bar> \<le> 2 ^ 31" by (simp add: D_def)
  have "real_of_int \<bar>p\<bar> \<le> real_of_int (2 ^ 45)" using p by (simp only: of_int_le_iff)
  then have P2: "\<bar>P\<bar> \<le> 2 ^ 45" by (simp add: P_def)
  have inv: "1 / 2 ^ 31 \<le> 1 / \<bar>D\<bar>" "1 / \<bar>D\<bar> \<le> 1" using D1 D2 by (simp_all add: field_simps)
  have 1: "P / D = 0 \<or> 1 / 2 ^ 100 \<le> \<bar>P / D\<bar>"
  proof (cases "p = 0")
    case False
    then have "1 \<le> \<bar>p\<bar>" by linarith
    then have "real_of_int 1 \<le> real_of_int \<bar>p\<bar>" by (simp only: of_int_le_iff)
    then have "1 \<le> \<bar>P\<bar>" by (simp add: P_def)
    then have "1 * (1 / 2 ^ 31) \<le> \<bar>P\<bar> * (1 / \<bar>D\<bar>)" using inv(1) by (intro mult_mono) simp_all
    then have "1 / 2 ^ 31 \<le> \<bar>P / D\<bar>" by simp
    moreover have "(1::real) / 2 ^ 100 \<le> 1 / 2 ^ 31" by simp
    ultimately have "1 / 2 ^ 100 \<le> \<bar>P / D\<bar>" by (rule order_trans [rotated])
    then show ?thesis by simp
  qed (simp add: P_def)
  have 3: "\<bar>P / D\<bar> \<le> 2 ^ 45 / \<bar>D\<bar>" using P2 by (simp add: divide_right_mono)
  have "\<bar>P\<bar> * (1 / \<bar>D\<bar>) \<le> 2 ^ 45 * 1" using P2 inv(2) by (intro mult_mono) simp_all
  then have "\<bar>P / D\<bar> \<le> 2 ^ 45" by simp
  moreover have "(2::real) ^ 45 \<le> 2 ^ 100" by simp
  ultimately have 2: "\<bar>P / D\<bar> \<le> 2 ^ 100" by (rule order_trans)
  show "real_of_int p / real_of_int d = 0 \<or> 1 / 2 ^ 100 \<le> \<bar>real_of_int p / real_of_int d\<bar>"
    using 1 unfolding P_def D_def .
  show "\<bar>real_of_int p / real_of_int d\<bar> \<le> 2 ^ 100" using 2 unfolding P_def D_def .
  show "\<bar>real_of_int p / real_of_int d\<bar> \<le> 2 ^ 45 / \<bar>real_of_int d\<bar>"
    using 3 unfolding P_def D_def .
qed

lemma tenths_no_tie:
  assumes d: "d \<noteq> 0" "\<bar>d\<bar> \<le> 2 ^ 31" and p: "\<bar>p\<bar> \<le> 2 ^ 45"
    and n: "\<forall>k. 10 * (real_of_int p / real_of_int d) \<noteq> real_of_int k + 1 / 2"
  shows "\<exists>r2 r3. round_binary64 (real_of_int p / real_of_int d) = Finite r2 \<and>
     round_binary64 (10 * r2) = Finite r3 \<and>
     round_real r3 = round_real (10 * (real_of_int p / real_of_int d))"
proof -
  define q where "q = real_of_int p / real_of_int d"
  define y where "y = 10 * q"
  define \<delta> where "\<delta> = 1 / (2 * \<bar>real_of_int d\<bar>)"
  define j where "j = \<lfloor>y + 1 / 2\<rfloor>"
  have D: "0 < \<bar>real_of_int d\<bar>" using d(1) by simp
  have \<delta>: "0 < \<delta>" using D by (simp add: \<delta>_def)
  have c1: "(10::real) = 0 \<or> 1 / 2 ^ 90 \<le> \<bar>10 :: real\<bar>" by simp
  have c2: "\<bar>10 :: real\<bar> \<le> 2 ^ 90" by simp
  from two_roundings [OF quotient_bounds(1,2) [OF d p] c1 c2] obtain r2 r3 where
    r: "round_binary64 q = Finite r2" "round_binary64 (r2 * 10) = Finite r3"
       "\<bar>r3 - q * 10\<bar> \<le> \<bar>q * 10\<bar> / 2 ^ 51"
    unfolding q_def [symmetric] by blast
  have "\<bar>q * 10\<bar> / 2 ^ 51 = \<bar>q\<bar> * (10 / 2 ^ 51)" by (simp add: abs_mult)
  also have "\<dots> \<le> 2 ^ 45 / \<bar>real_of_int d\<bar> * (10 / 2 ^ 51)"
    using quotient_bounds(3) [OF d p] unfolding q_def [symmetric]
    by (intro mult_right_mono) simp_all
  also have "\<dots> = (10 / 2 ^ 5) * \<delta>" by (simp add: \<delta>_def)
  also have "\<dots> < 1 * \<delta>" using \<delta> by (intro mult_strict_right_mono) simp_all
  finally have "\<bar>q * 10\<bar> / 2 ^ 51 < \<delta>" by simp
  with r(3) have close: "\<bar>r3 - y\<bar> < \<delta>" by (simp add: y_def mult.commute)
  have j: "real_of_int j - 1 / 2 \<le> y" "y < real_of_int j + 1 / 2"
    unfolding j_def by linarith+
  have "\<delta> \<le> \<bar>y - (real_of_int (j - 1) + 1 / 2)\<bar>"
    using half_integer_distance [OF d(1), of p "j - 1"] n
    unfolding \<delta>_def y_def q_def by blast
  with j(1) have lo: "real_of_int j - 1 / 2 + \<delta> \<le> y" by simp
  have "\<delta> \<le> \<bar>y - (real_of_int j + 1 / 2)\<bar>"
    using half_integer_distance [OF d(1), of p j] n
    unfolding \<delta>_def y_def q_def by blast
  with j(2) have hi: "y + \<delta> \<le> real_of_int j + 1 / 2" by simp
  have "real_of_int j - 1 / 2 < r3" "r3 < real_of_int j + 1 / 2"
    using close lo hi by linarith+
  then have 1: "round_real r3 = real_of_int j" by (rule round_real_between)
  have "real_of_int j - 1 / 2 < y" "y < real_of_int j + 1 / 2"
    using \<delta> lo hi by linarith+
  then have 2: "round_real y = real_of_int j" by (rule round_real_between)
  have "round_binary64 (10 * r2) = Finite r3" using r(2) by (simp add: mult.commute)
  with r(1) 1 2 show ?thesis unfolding y_def q_def by auto
qed

lemma significand_bounds:
  assumes x: "x \<noteq> 0"
  shows "2 ^ 52 \<le> \<bar>x / 2 powi (exponent2 x - 52)\<bar>" "\<bar>x / 2 powi (exponent2 x - 52)\<bar> < 2 ^ 53"
proof -
  define q :: real where "q = 2 powi (exponent2 x - 52)"
  have q: "0 < q" by (simp add: q_def)
  have "q * 2 ^ 52 = 2 powi exponent2 x" by (simp add: q_def power_int_diff)
  also have "\<dots> \<le> \<bar>x\<bar>" by (rule exponent2_bounds(1) [OF x])
  finally have "2 ^ 52 \<le> \<bar>x\<bar> / q" using q by (simp add: field_simps)
  then show "2 ^ 52 \<le> \<bar>x / 2 powi (exponent2 x - 52)\<bar>" using q by (simp add: q_def)
  have "\<bar>x\<bar> < 2 powi (exponent2 x + 1)" by (rule exponent2_bounds(2) [OF x])
  also have "\<dots> = q * 2 ^ 53" by (simp add: q_def power_int_add power_int_diff)
  finally have "\<bar>x\<bar> / q < 2 ^ 53" using q by (simp add: field_simps)
  then show "\<bar>x / 2 powi (exponent2 x - 52)\<bar> < 2 ^ 53" using q by (simp add: q_def)
qed

lemma round_binary64_normal:
  assumes x: "x \<noteq> 0" and e: "- 1022 \<le> exponent2 x" "exponent2 x \<le> 1000"
  shows "round_binary64 x =
     Finite (real_of_int (round_to_even (x / 2 powi (exponent2 x - 52))) *
             2 powi (exponent2 x - 52))"
proof -
  define q :: real where "q = 2 powi (exponent2 x - 52)"
  define R where "R = round_to_even (x / q)"
  have q: "0 < q" by (simp add: q_def)
  have m: "max (exponent2 x) (- 1022) = exponent2 x" using e(1) by simp
  have "\<bar>x / q\<bar> < 2 ^ 53" using significand_bounds(2) [OF x] by (simp add: q_def)
  moreover have "\<bar>real_of_int R - x / q\<bar> \<le> 1 / 2" unfolding R_def by (rule round_to_even_error)
  ultimately have "\<bar>real_of_int R\<bar> < 2 ^ 53 + 1" by linarith
  then have K: "\<bar>real_of_int R\<bar> \<le> 2 ^ 54" by simp
  have "q \<le> 2 powi 948" unfolding q_def using e(2) by (intro power_int_increasing) simp_all
  with K have "\<bar>real_of_int R\<bar> * q \<le> 2 ^ 54 * 2 powi 948" using q by (intro mult_mono) simp_all
  also have "\<dots> < 2 powi 1024" by simp
  finally have "\<not> 2 powi 1024 \<le> \<bar>real_of_int R * q\<bar>" using q by (simp add: abs_mult)
  then show ?thesis
    using x unfolding round_binary64_def m Let_def q_def [symmetric] R_def [symmetric] by simp
qed

lemma tie_round_trip:
  assumes odd: "odd m" and b: "\<bar>m\<bar> \<le> 20 * 2 ^ 45"
  shows "\<exists>r2. round_binary64 (real_of_int m / 20) = Finite r2 \<and>
     round_binary64 (10 * r2) = Finite (real_of_int m / 2)"
proof -
  define x where "x = real_of_int m / 20"
  define e where "e = exponent2 x"
  define s :: real where "s = 2 powi (e - 52)"
  define R where "R = round_to_even (x / s)"
  define y where "y = 10 * (real_of_int R * s)"
  define e1 where "e1 = exponent2 y"
  have m0: "m \<noteq> 0" using odd by auto
  have x0: "x \<noteq> 0" using m0 by (simp add: x_def)
  have s: "0 < s" by (simp add: s_def)
  have "1 \<le> \<bar>m\<bar>" using m0 by linarith
  then have "real_of_int 1 \<le> real_of_int \<bar>m\<bar>" by (simp only: of_int_le_iff)
  then have xlo: "1 / 20 \<le> \<bar>x\<bar>" by (simp add: x_def)
  have "real_of_int \<bar>m\<bar> \<le> real_of_int (20 * 2 ^ 45)" using b by (simp only: of_int_le_iff)
  then have xhi: "\<bar>x\<bar> \<le> 2 ^ 45" by (simp add: x_def)
  have "(2::real) powi (- 5) = 1 / 32" by (simp add: power_int_minus_divide)
  with xlo exponent2_bounds(2) [OF x0] have "(2::real) powi (- 5) < 2 powi (e + 1)"
    unfolding e_def by linarith
  then have "- 5 < e + 1" by (rule powi_less_exp)
  then have elo: "- 5 \<le> e" by simp
  have "(2::real) powi 45 = 2 ^ 45" by simp
  with xhi exponent2_bounds(1) [OF x0] have "(2::real) powi e \<le> 2 powi 45"
    unfolding e_def by linarith
  then have ehi: "e \<le> 45" by (rule powi_le_exp)
  have r2: "round_binary64 x = Finite (real_of_int R * s)"
    using round_binary64_normal [OF x0] elo ehi
    unfolding e_def [symmetric] s_def [symmetric] R_def [symmetric] by simp
  have sig: "2 ^ 52 \<le> \<bar>x / s\<bar>" "\<bar>x / s\<bar> < 2 ^ 53"
    using significand_bounds [OF x0] unfolding e_def [symmetric] s_def [symmetric] by simp_all
  have err: "\<bar>real_of_int R - x / s\<bar> \<le> 1 / 2" unfolding R_def by (rule round_to_even_error)
  have "2 ^ 52 - 1 < \<bar>real_of_int R\<bar>" using sig(1) err by linarith
  then have "real_of_int (2 ^ 52 - 1) < real_of_int \<bar>R\<bar>" by simp
  then have "2 ^ 52 - 1 < \<bar>R\<bar>" by (simp only: of_int_less_iff)
  then have "2 ^ 52 \<le> \<bar>R\<bar>" by simp
  then have "real_of_int (2 ^ 52) \<le> real_of_int \<bar>R\<bar>" by (simp only: of_int_le_iff)
  then have Rlo: "2 ^ 52 \<le> \<bar>real_of_int R\<bar>" by simp
  have "\<bar>real_of_int R\<bar> < 2 ^ 53 + 1" using sig(2) err by linarith
  then have "real_of_int \<bar>R\<bar> < real_of_int (2 ^ 53 + 1)" by simp
  then have "\<bar>R\<bar> < 2 ^ 53 + 1" by (simp only: of_int_less_iff)
  then have "\<bar>R\<bar> \<le> 2 ^ 53" by simp
  then have "real_of_int \<bar>R\<bar> \<le> real_of_int (2 ^ 53)" by (simp only: of_int_le_iff)
  then have Rhi: "\<bar>real_of_int R\<bar> \<le> 2 ^ 53" by simp
  have ay: "\<bar>y\<bar> = 10 * \<bar>real_of_int R\<bar> * s" using s by (simp add: y_def abs_mult)
  have "(2::real) powi (e + 3) = 2 ^ 55 * s" by (simp add: s_def power_int_add power_int_diff)
  also have "\<dots> \<le> 10 * \<bar>real_of_int R\<bar> * s" using Rlo s by (intro mult_right_mono) simp_all
  finally have ylo: "2 powi (e + 3) \<le> \<bar>y\<bar>" unfolding ay .
  have "10 * \<bar>real_of_int R\<bar> * s < 2 ^ 57 * s" using Rhi s by (intro mult_strict_right_mono) simp_all
  also have "\<dots> = 2 powi (e + 5)" by (simp add: s_def power_int_add power_int_diff)
  finally have yhi: "\<bar>y\<bar> < 2 powi (e + 5)" unfolding ay .
  have "0 < (2::real) powi (e + 3)" by (rule zero_less_power_int) simp
  with ylo have "0 < \<bar>y\<bar>" by linarith
  then have y0: "y \<noteq> 0" by simp
  from exponent2_bounds [OF y0] ylo yhi
  have "(2::real) powi e1 < 2 powi (e + 5)" "(2::real) powi (e + 3) < 2 powi (e1 + 1)"
    unfolding e1_def by linarith+
  then have "e1 < e + 5" "e + 3 < e1 + 1" by (auto dest: powi_less_exp)
  then have e1: "e + 3 \<le> e1" "e1 \<le> e + 4" by simp_all
  define h where "h = nat (e1 - e - 1)"
  define t where "t = nat (51 - e1)"
  have h: "2 \<le> h" using e1 by (simp add: h_def)
  have t: "1 \<le> t" using e1 ehi by (simp add: t_def)
  have "e - 52 = - int (t + h + 2)" using e1 ehi by (simp add: t_def h_def)
  then have sv: "s = 1 / 2 ^ (t + h + 2)"
    unfolding s_def by (simp only: power_int_minus power_int_of_nat) (simp add: field_simps)
  have "e1 - 52 = - int (t + 1)" using e1 ehi by (simp add: t_def)
  then have s1: "(2::real) powi (e1 - 52) = 1 / 2 ^ (t + 1)"
    by (simp only: power_int_minus power_int_of_nat) (simp add: field_simps)
  define j where "j = 5 * R - m * 2 ^ (t + h)"
  have xs: "x / s = real_of_int (m * 2 ^ (t + h)) / 5" by (simp add: x_def sv power_add)
  define z where "z = x / s"
  have "real_of_int j = 5 * real_of_int R - 5 * z" unfolding z_def xs by (simp add: j_def)
  moreover have "\<bar>real_of_int R - z\<bar> \<le> 1 / 2" using err by (simp only: z_def)
  ultimately have "\<bar>real_of_int j\<bar> < 3" by linarith
  then have "real_of_int \<bar>j\<bar> < real_of_int 3" by simp
  then have "\<bar>j\<bar> < 3" by (simp only: of_int_less_iff)
  then have "\<bar>j\<bar> \<le> 2" by simp
  then have "real_of_int \<bar>j\<bar> \<le> real_of_int 2" by (simp only: of_int_le_iff)
  then have j2: "\<bar>real_of_int j\<bar> \<le> 2" by simp
  have "(2::real) ^ 2 \<le> 2 ^ h" using h by (intro power_increasing) simp_all
  then have h4: "(4::real) \<le> 2 ^ h" by simp
  have "\<bar>real_of_int j / 2 ^ h\<bar> = \<bar>real_of_int j\<bar> / 2 ^ h" by simp
  also have "\<dots> \<le> 2 / 2 ^ h" using j2 by (intro divide_right_mono) simp_all
  also have "\<dots> \<le> 2 / 4" using h4 by (intro divide_left_mono) simp_all
  finally have d: "\<bar>real_of_int j / 2 ^ h\<bar> \<le> 1 / 2" by simp
  have ev: "even (m * 2 ^ t)" using t by simp
  define g0 where "g0 = real_of_int (m * 2 ^ t) + real_of_int j / 2 ^ h"
  have "5 * real_of_int R = real_of_int (m * 2 ^ (t + h)) + real_of_int j" by (simp add: j_def)
  also have "real_of_int (m * 2 ^ (t + h)) = 2 ^ h * real_of_int (m * 2 ^ t)"
    by (simp add: power_add)
  also have "2 ^ h * real_of_int (m * 2 ^ t) + real_of_int j = 2 ^ h * g0"
    unfolding g0_def by (simp add: distrib_left)
  finally have R5: "5 * real_of_int R = 2 ^ h * g0" .
  have k: "2 * 2 ^ h * s = 1 / 2 ^ (t + 1)" unfolding sv by (simp add: power_add)
  have "y = 2 * (5 * real_of_int R) * s" by (simp add: y_def)
  also have "\<dots> = g0 * (2 * 2 ^ h * s)" unfolding R5 by simp
  finally have "y = g0 * (1 / 2 ^ (t + 1))" unfolding k .
  then have "y / (1 / 2 ^ (t + 1)) = real_of_int (m * 2 ^ t) + real_of_int j / 2 ^ h"
    unfolding g0_def by simp
  then have g: "y / 2 powi (exponent2 y - 52) = real_of_int (m * 2 ^ t) + real_of_int j / 2 ^ h"
    unfolding e1_def [symmetric] s1 .
  have c: "\<bar>real_of_int j / 2 ^ h\<bar> < 1 / 2 \<or> even (m * 2 ^ t) \<and> \<bar>real_of_int j / 2 ^ h\<bar> \<le> 1 / 2"
    using ev d by simp
  have b1: "- 1022 \<le> exponent2 y" "exponent2 y \<le> 1000"
    using e1 elo ehi unfolding e1_def [symmetric] by simp_all
  from round_binary64_grid [OF y0 b1 g c]
  have "round_binary64 y = Finite (real_of_int (m * 2 ^ t) * (1 / 2 ^ (t + 1)))"
    unfolding e1_def [symmetric] s1 .
  also have "real_of_int (m * 2 ^ t) * (1 / 2 ^ (t + 1)) = real_of_int m / 2" by simp
  finally have "round_binary64 (10 * (real_of_int R * s)) = Finite (real_of_int m / 2)"
    unfolding y_def .
  with r2 show ?thesis unfolding x_def by blast
qed

section \<open>Calibration and weighing\<close>

lemma round_real_tenths: "round_real (10 * x) / 10 = round_tenths x"
proof (cases "0 \<le> x")
  case True
  then show ?thesis
    by (cases "x = 0") (simp_all add: round_real_def round_tenths_def mult.commute)
next
  case False
  then have "sgn x = - 1" "\<bar>x\<bar> = - x" "\<not> 0 \<le> 10 * x" by simp_all
  then show ?thesis
    by (simp add: round_real_def round_tenths_def mult.commute)
qed

lemma round_tenths_nearest:
  "\<bar>round_tenths x - x\<bar> \<le> 1 / 20 \<and> (\<exists>n :: int. round_tenths x = real_of_int n / 10) \<and>
   (\<bar>round_tenths x - x\<bar> = 1 / 20 \<longrightarrow> \<bar>x\<bar> < \<bar>round_tenths x\<bar>)"
proof -
  let ?n = "\<lfloor>\<bar>x\<bar> * 10 + 1 / 2\<rfloor>"
  define d where "d = real_of_int ?n / 10 - \<bar>x\<bar>"
  have lo: "real_of_int ?n \<le> \<bar>x\<bar> * 10 + 1 / 2" by (rule of_int_floor_le)
  have hi: "\<bar>x\<bar> * 10 + 1 / 2 < real_of_int ?n + 1"
    using floor_correct [of "\<bar>x\<bar> * 10 + 1 / 2"] by simp
  have d: "- (1 / 20) < d" "d \<le> 1 / 20"
    using lo hi unfolding d_def by linarith+
  have n0: "0 \<le> real_of_int ?n" by simp
  have diff: "round_tenths x - x = sgn x * d"
    by (simp add: round_tenths_def d_def sgn_if algebra_simps)
  have ab: "\<bar>round_tenths x\<bar> = \<bar>sgn x\<bar> * (real_of_int ?n / 10)"
    using n0 by (simp add: round_tenths_def abs_mult)
  have 1: "\<bar>round_tenths x - x\<bar> \<le> 1 / 20"
    unfolding diff using d by (simp add: abs_mult sgn_if abs_if)
  have "round_tenths x = real_of_int (if 0 < x then ?n else if x = 0 then 0 else - ?n) / 10"
    by (simp add: round_tenths_def sgn_if)
  then have 2: "\<exists>n :: int. round_tenths x = real_of_int n / 10" by blast
  have 3: "\<bar>x\<bar> < \<bar>round_tenths x\<bar>" if "\<bar>round_tenths x - x\<bar> = 1 / 20"
  proof -
    from that have "x \<noteq> 0" unfolding diff by auto
    then have s: "\<bar>sgn x\<bar> = 1" by (simp add: sgn_if)
    have "\<bar>sgn x * d\<bar> = \<bar>d\<bar>" by (simp only: abs_mult s mult_1)
    with that have "\<bar>d\<bar> = 1 / 20" unfolding diff by simp
    with d have "d = 1 / 20" by (simp add: abs_if split: if_splits)
    then have "\<bar>x\<bar> < real_of_int ?n / 10" unfolding d_def by linarith
    then show ?thesis by (simp only: ab s mult_1)
  qed
  from 1 2 3 show ?thesis by blast
qed

lemma sint_diff_no_overflow:
  fixes a b :: int32_t
  assumes "- 2147483648 \<le> sint a - sint b" "sint a - sint b < 2147483648"
  shows "sint (a - b) = sint a - sint b"
proof -
  have "signed_take_bit (LENGTH(32) - 1) (sint a - sint b) = sint a - sint b"
    using assms by (simp add: signed_take_bit_int_eq_self)
  then show ?thesis by (simp only: sint_word_diff)
qed

lemma sint_eq_0_iff: "sint (x :: int32_t) = 0 \<longleftrightarrow> x = 0"
proof
  assume "sint x = 0"
  then have "word_of_int (sint x) = (word_of_int 0 :: int32_t)" by simp
  then show "x = 0" by simp
qed simp

lemma sint_diff_eq_0_iff: "sint (a - b :: int32_t) = 0 \<longleftrightarrow> a = b"
  by (simp add: sint_eq_0_iff)

lemma getAverageValue_one_sample:
  assumes "pin_script w = frame_levels f" "millis_script w = [t]" "t mod 150 = 0"
  shows "getAverageValue s 1 w =
     Returns (frame_value f)
       (w\<lparr>pin_script := [], millis_script := [], trace := trace w @ frame_trace s f\<rparr>)"
proof -
  have "average_loop s 1 0 0 w =
      Returns (0 + frame_value f)
        (w\<lparr>pin_script := [], millis_script := [], trace := trace w @ frame_trace s f\<rparr>)"
    using average_loop_hit [of w t "[]" f "[]" s 1 0 0] assms by simp
  moreover have "sint (frame_value f) sdiv 1 = sint (frame_value f)"
    by (simp add: signed_divide_int_def mult_sgn_abs)
  then have "int32_div (frame_value f) 1 = frame_value f"
    by (simp add: int32_div_def)
  ultimately show ?thesis by (simp add: getAverageValue_def)
qed

lemma calibrate_after_average:
  assumes "getAverageValue s nbr w = Returns v w1"
  shows "calibrate s nbr w =
     Returns (ddiv (double_of_int32 (hx_gramsRefWeight s)) (double_of_int32 (v - hx_v0 s)),
              s\<lparr>hx_vref := v,
                hx_b := ddiv (dmul (double_of_int32 (- hx_gramsRefWeight s))
                                (double_of_int32 (hx_v0 s)))
                          (double_of_int32 (v - hx_v0 s)),
                hx_m := ddiv (double_of_int32 (hx_gramsRefWeight s))
                          (double_of_int32 (v - hx_v0 s))\<rparr>) w1"
  using assms by (simp add: calibrate_def Let_def)








lemma tenths_tie:
  assumes d: "d \<noteq> 0" "\<bar>d\<bar> \<le> 2 ^ 31" and p: "\<bar>p\<bar> \<le> 2 ^ 45"
    and t: "10 * (real_of_int p / real_of_int d) = real_of_int k + 1 / 2"
  shows "\<exists>r2. round_binary64 (real_of_int p / real_of_int d) = Finite r2 \<and>
     round_binary64 (10 * r2) = Finite (10 * (real_of_int p / real_of_int d))"
proof -
  define q where "q = real_of_int p / real_of_int d"
  define m where "m = 2 * k + 1"
  have odd: "odd m" by (simp add: m_def)
  have mq: "real_of_int m = 20 * q" using t unfolding q_def [symmetric] by (simp add: m_def)
  have "1 \<le> \<bar>d\<bar>" using d(1) by linarith
  then have "real_of_int 1 \<le> real_of_int \<bar>d\<bar>" by (simp only: of_int_le_iff)
  then have "2 ^ 45 / \<bar>real_of_int d\<bar> \<le> 2 ^ 45 / 1" by (intro divide_left_mono) simp_all
  with quotient_bounds(3) [OF d p] have "\<bar>q\<bar> \<le> 2 ^ 45" unfolding q_def by simp
  then have "\<bar>real_of_int m\<bar> \<le> 20 * 2 ^ 45" unfolding mq by simp
  then have "real_of_int \<bar>m\<bar> \<le> real_of_int (20 * 2 ^ 45)" by simp
  then have b: "\<bar>m\<bar> \<le> 20 * 2 ^ 45" by (simp only: of_int_le_iff)
  have 1: "real_of_int m / 20 = q" "real_of_int m / 2 = 10 * q" using mq by simp_all
  from tie_round_trip [OF odd b] show ?thesis unfolding 1 q_def .
qed

lemma tenths_round:
  assumes d: "d \<noteq> 0" "\<bar>d\<bar> \<le> 2 ^ 31" and p: "\<bar>p\<bar> \<le> 2 ^ 45"
  shows "\<exists>r2 r3. round_binary64 (real_of_int p / real_of_int d) = Finite r2 \<and>
     round_binary64 (10 * r2) = Finite r3 \<and>
     round_real r3 = round_real (10 * (real_of_int p / real_of_int d))"
proof (cases "\<exists>k. 10 * (real_of_int p / real_of_int d) = real_of_int k + 1 / 2")
  case True
  then obtain k where "10 * (real_of_int p / real_of_int d) = real_of_int k + 1 / 2" ..
  from tenths_tie [OF d p this] show ?thesis by blast
next
  case False
  then have "\<forall>k. 10 * (real_of_int p / real_of_int d) \<noteq> real_of_int k + 1 / 2" by blast
  from tenths_no_tie [OF d p this] show ?thesis .
qed

lemma ddiv_10: "ddiv (Finite x) (Finite 10) = round_binary64 (x / 10)"
  by simp

lemma weight_chain:
  assumes d: "d \<noteq> 0" "\<bar>d\<bar> \<le> 2 ^ 31" and p: "\<bar>g * c\<bar> \<le> 2 ^ 45"
  shows "ddiv (dround (dmul (Finite 10)
             (ddiv (dmul (Finite (real_of_int g)) (Finite (real_of_int c)))
                (Finite (real_of_int d))))) (Finite 10) =
     round_binary64 (round_tenths (real_of_int g * real_of_int c / real_of_int d))"
proof -
  have "\<bar>g * c\<bar> \<le> 2 ^ 53" using p by simp
  from round_binary64_int [OF this]
  have 1: "dmul (Finite (real_of_int g)) (Finite (real_of_int c)) = Finite (real_of_int (g * c))"
    by simp
  from tenths_round [OF d p] obtain r2 r3 where
    r: "round_binary64 (real_of_int (g * c) / real_of_int d) = Finite r2"
       "round_binary64 (10 * r2) = Finite r3"
       "round_real r3 = round_real (10 * (real_of_int (g * c) / real_of_int d))" by blast
  have D: "real_of_int d \<noteq> 0" using d(1) by simp
  have 2: "ddiv (Finite (real_of_int (g * c))) (Finite (real_of_int d)) = Finite r2"
    using D r(1) by simp
  have 3: "dmul (Finite 10) (Finite r2) = Finite r3" using r(2) by simp
  have 4: "dround (Finite r3) = Finite (round_real (10 * (real_of_int (g * c) / real_of_int d)))"
    using r(3) by simp
  have 5: "ddiv (Finite (round_real (10 * (real_of_int (g * c) / real_of_int d)))) (Finite 10) =
      round_binary64 (round_tenths (real_of_int (g * c) / real_of_int d))"
    by (simp only: ddiv_10 round_real_tenths)
  have 6: "real_of_int (g * c) = real_of_int g * real_of_int c" by simp
  show ?thesis unfolding 1 2 3 4 5 unfolding 6 ..
qed

lemma round_binary64_tenths:
  assumes "\<bar>x\<bar> \<le> 2 ^ 100"
  shows "\<exists>r. round_binary64 (round_tenths x) = Finite r \<and>
     \<bar>r - round_tenths x\<bar> \<le> \<bar>round_tenths x\<bar> / 2 ^ 53"
proof -
  from round_tenths_nearest [of x] obtain n :: int where
    e: "\<bar>round_tenths x - x\<bar> \<le> 1 / 20" and n: "round_tenths x = real_of_int n / 10" by blast
  have lo: "round_tenths x = 0 \<or> 1 / 2 ^ 200 \<le> \<bar>round_tenths x\<bar>"
  proof (cases "n = 0")
    case False
    then have "1 \<le> \<bar>n\<bar>" by linarith
    then have "real_of_int 1 \<le> real_of_int \<bar>n\<bar>" by (simp only: of_int_le_iff)
    then have "1 / 10 \<le> \<bar>round_tenths x\<bar>" unfolding n by simp
    moreover have "(1::real) / 2 ^ 200 \<le> 1 / 10" by simp
    ultimately have "1 / 2 ^ 200 \<le> \<bar>round_tenths x\<bar>" by (rule order_trans [rotated])
    then show ?thesis by simp
  qed (simp add: n)
  have "\<bar>round_tenths x\<bar> \<le> 2 ^ 100 + 1 / 20" using e assms by linarith
  moreover have "(2::real) ^ 100 + 1 / 20 \<le> 2 ^ 200" by simp
  ultimately have hi: "\<bar>round_tenths x\<bar> \<le> 2 ^ 200" by (rule order_trans)
  from round_binary64_rel [OF lo hi] show ?thesis .
qed

lemma signed_real_bound: "\<bar>signed (x :: int32_t) :: real\<bar> \<le> 2 ^ 31"
proof -
  have "- (2 ^ 31) \<le> sint x" "sint x < 2 ^ 31"
    using sint_ge [of x] sint_lt [of x] by simp_all
  then have "\<bar>sint x\<bar> \<le> 2 ^ 31" by linarith
  then have "real_of_int \<bar>sint x\<bar> \<le> real_of_int (2 ^ 31)" by (simp only: of_int_le_iff)
  then show ?thesis by simp
qed

lemma signed_real_ge_1: "x \<noteq> 0 \<Longrightarrow> 1 \<le> \<bar>signed (x :: int32_t) :: real\<bar>"
proof -
  assume "x \<noteq> 0"
  then have "sint x \<noteq> 0" by (simp add: sint_eq_0_iff)
  then have "1 \<le> \<bar>sint x\<bar>" by linarith
  then have "real_of_int 1 \<le> real_of_int \<bar>sint x\<bar>" by (simp only: of_int_le_iff)
  then show ?thesis by simp
qed

lemma round_binary64_below:
  assumes "\<bar>x\<bar> \<le> 2 ^ k" "k \<le> 999"
  shows "\<exists>r. round_binary64 x = Finite r \<and> \<bar>r\<bar> \<le> 2 ^ (k + 2)"
proof -
  have "(2::real) ^ k \<le> 2 ^ 1000" using assms(2) by (intro power_increasing) simp_all
  with assms(1) have "\<bar>x\<bar> \<le> 2 ^ 1000" by linarith
  from round_binary64_finite [OF this] obtain r where
    r: "round_binary64 x = Finite r" "\<bar>r\<bar> \<le> 2 * \<bar>x\<bar> + 1" by blast
  have "(1::real) \<le> 2 ^ k" by simp
  moreover have "(2::real) ^ (k + 2) = 4 * 2 ^ k" by simp
  ultimately have "2 * \<bar>x\<bar> + 1 \<le> 2 ^ (k + 2)" using assms(1) by linarith
  with r show ?thesis by auto
qed

lemma dmul_below:
  assumes "\<bar>x\<bar> \<le> 2 ^ j" "\<bar>y\<bar> \<le> 2 ^ k" "j + k \<le> 999"
  shows "\<exists>r. dmul (Finite x) (Finite y) = Finite r \<and> \<bar>r\<bar> \<le> 2 ^ (j + k + 2)"
proof -
  have "\<bar>x\<bar> * \<bar>y\<bar> \<le> 2 ^ j * 2 ^ k" using assms(1,2) by (intro mult_mono) simp_all
  then have "\<bar>x * y\<bar> \<le> 2 ^ (j + k)" by (simp add: abs_mult power_add)
  from round_binary64_below [OF this assms(3)] show ?thesis by simp
qed

lemma ddiv_below:
  assumes "\<bar>x\<bar> \<le> 2 ^ k" "1 \<le> \<bar>y\<bar>" "k \<le> 999"
  shows "\<exists>r. ddiv (Finite x) (Finite y) = Finite r \<and> \<bar>r\<bar> \<le> 2 ^ (k + 2)"
proof -
  have "\<bar>x\<bar> / \<bar>y\<bar> \<le> \<bar>x\<bar> / 1" using assms(2) by (intro divide_left_mono) simp_all
  then have "\<bar>x / y\<bar> \<le> 2 ^ k" using assms(1) by simp
  from round_binary64_below [OF this assms(3)] have
    "\<exists>r. round_binary64 (x / y) = Finite r \<and> \<bar>r\<bar> \<le> 2 ^ (k + 2)" .
  moreover have "y \<noteq> 0" using assms(2) by auto
  ultimately show ?thesis by simp
qed

lemma round_real_below: "\<bar>x\<bar> \<le> 2 ^ k \<Longrightarrow> \<bar>round_real x\<bar> \<le> 2 ^ (k + 1)"
proof -
  assume a: "\<bar>x\<bar> \<le> 2 ^ k"
  have "(1::real) \<le> 2 ^ k" by simp
  moreover have "\<bar>round_real x\<bar> \<le> \<bar>x\<bar> + 1" unfolding round_real_def by (simp; linarith)
  moreover have "(2::real) ^ (k + 1) = 2 * 2 ^ k" by simp
  ultimately show ?thesis using a by linarith
qed

lemma not_finite_ddiv_0: "\<not> is_finite (ddiv d (Finite 0))"
  by (cases d) (simp_all add: inf_of_sign_def)

lemma not_finite_tenths:
  "\<not> is_finite d \<Longrightarrow> \<not> is_finite (ddiv (dround (dmul (Finite 10) d)) (Finite 10))"
  by (cases d) (simp_all add: inf_of_sign_def)

lemma is_finite_slope:
  "is_finite (ddiv (double_of_int32 g) (double_of_int32 d)) \<longleftrightarrow> d \<noteq> 0"
proof (cases "d = 0")
  case True
  then show ?thesis using not_finite_ddiv_0 [of "double_of_int32 g"]
    by (simp add: double_of_int32_def)
next
  case False
  from ddiv_below [OF signed_real_bound [of g] signed_real_ge_1 [OF False]]
  show ?thesis using False by (auto simp add: double_of_int32_def)
qed

lemma is_finite_product:
  "\<exists>r. dmul (double_of_int32 a) (double_of_int32 b) = Finite r \<and> \<bar>r\<bar> \<le> 2 ^ 64"
  using dmul_below [OF signed_real_bound [of a] signed_real_bound [of b]]
  by (simp add: double_of_int32_def)

lemma is_finite_intercept:
  "is_finite (ddiv (dmul (double_of_int32 a) (double_of_int32 b)) (double_of_int32 d)) \<longleftrightarrow>
   d \<noteq> 0"
proof (cases "d = 0")
  case True
  then show ?thesis
    using not_finite_ddiv_0 [of "dmul (double_of_int32 a) (double_of_int32 b)"]
    by (simp add: double_of_int32_def)
next
  case False
  from is_finite_product [of a b] obtain r where
    r: "dmul (double_of_int32 a) (double_of_int32 b) = Finite r" "\<bar>r\<bar> \<le> 2 ^ 64" by blast
  from ddiv_below [OF r(2) signed_real_ge_1 [OF False]]
  show ?thesis using False unfolding r(1) by (auto simp add: double_of_int32_def)
qed

lemma is_finite_weight:
  "is_finite (ddiv (dround (dmul (Finite 10)
       (ddiv (dmul (double_of_int32 a) (double_of_int32 b)) (double_of_int32 d)))) (Finite 10)) \<longleftrightarrow>
   d \<noteq> 0"
proof (cases "d = 0")
  case True
  have "\<not> is_finite (ddiv (dmul (double_of_int32 a) (double_of_int32 b)) (double_of_int32 d))"
    using True by (simp add: is_finite_intercept)
  from not_finite_tenths [OF this] show ?thesis using True by simp
next
  case False
  from is_finite_product [of a b] obtain r1 where
    r1: "dmul (double_of_int32 a) (double_of_int32 b) = Finite r1" "\<bar>r1\<bar> \<le> 2 ^ 64" by blast
  from ddiv_below [OF r1(2) signed_real_ge_1 [OF False]] obtain r2 where
    r2: "ddiv (Finite r1) (double_of_int32 d) = Finite r2" "\<bar>r2\<bar> \<le> 2 ^ 66"
    by (auto simp add: double_of_int32_def)
  have ten: "\<bar>10 :: real\<bar> \<le> 2 ^ 4" by simp
  from dmul_below [OF ten r2(2)] obtain r3 where
    r3: "dmul (Finite 10) (Finite r2) = Finite r3" "\<bar>r3\<bar> \<le> 2 ^ 72" by auto
  from round_real_below [OF r3(2)] have r4: "\<bar>round_real r3\<bar> \<le> 2 ^ 73" by simp
  have one: "1 \<le> \<bar>10 :: real\<bar>" by simp
  from ddiv_below [OF r4 one] obtain r5 where
    "ddiv (Finite (round_real r3)) (Finite 10) = Finite r5" by auto
  then show ?thesis using False unfolding r1(1) r2(1) r3(1) by simp
qed

lemma round_binary64_5: "round_binary64 5 = Finite 5"
  by code_simp

lemma round_binary64_m500000: "round_binary64 (- 500000) = Finite (- 500000)"
  by code_simp

lemma round_binary64_500000: "round_binary64 500000 = Finite 500000"
  by code_simp

lemma round_binary64_m5000: "round_binary64 (- 5000) = Finite (- 5000)"
  by code_simp

text \<open>
  C2, as the code has it. A tenth is in general not a binary64 number, so what
  \<open>getWeight\<close> can return is the binary64 number nearest to the weight of the
  specification. It does so in every state with \<open>refCode \<noteq> zeroCode\<close> in which the two
  differences \<open>v - zeroCode\<close> and \<open>refCode - zeroCode\<close> fit an \<^verbatim>\<open>int32_t\<close> (they
  always do for 24-bit codes) and the product \<open>refWeightGrams * (v - zeroCode)\<close> is at
  most \<open>2^45\<close> in absolute value: for the averaged code \<open>v\<close> it returns the rounding
  to binary64 of \<open>refWeightGrams * (v - zeroCode) / (refCode - zeroCode)\<close> rounded to one
  decimal place, a half away from zero. That number is within the relative error
  \<open>2^-53\<close> of the weight of the specification, which is a multiple of a tenth at most
  a twentieth away from the quotient.
\<close>

theorem getWeight_weightFromCode:
  "getAverageValue s nbr w = Returns v w1 \<Longrightarrow> hx_vref s \<noteq> hx_v0 s \<Longrightarrow>
   - (2 ^ 31) \<le> sint v - sint (hx_v0 s) \<Longrightarrow> sint v - sint (hx_v0 s) < 2 ^ 31 \<Longrightarrow>
   - (2 ^ 31) \<le> sint (hx_vref s) - sint (hx_v0 s) \<Longrightarrow>
   sint (hx_vref s) - sint (hx_v0 s) < 2 ^ 31 \<Longrightarrow>
   \<bar>sint (hx_gramsRefWeight s) * (sint v - sint (hx_v0 s))\<bar> \<le> 2 ^ 45 \<Longrightarrow>
   (\<exists>r. getWeight s nbr w = Returns (Finite r) w1 \<and>
      round_binary64 (weightFromCode (sint (hx_gramsRefWeight s)) (sint (hx_v0 s))
                        (sint (hx_vref s)) (sint v)) = Finite r \<and>
      \<bar>r - weightFromCode (sint (hx_gramsRefWeight s)) (sint (hx_v0 s))
             (sint (hx_vref s)) (sint v)\<bar> \<le>
      \<bar>weightFromCode (sint (hx_gramsRefWeight s)) (sint (hx_v0 s))
         (sint (hx_vref s)) (sint v)\<bar> / 2 ^ 53) \<and>
   \<bar>weightFromCode (sint (hx_gramsRefWeight s)) (sint (hx_v0 s)) (sint (hx_vref s)) (sint v) -
     real_of_int (sint (hx_gramsRefWeight s)) * real_of_int (sint v - sint (hx_v0 s)) /
     real_of_int (sint (hx_vref s) - sint (hx_v0 s))\<bar> \<le> 1 / 20 \<and>
   (\<exists>n :: int. weightFromCode (sint (hx_gramsRefWeight s)) (sint (hx_v0 s))
                    (sint (hx_vref s)) (sint v) = real_of_int n / 10)"
proof -
  assume avg: "getAverageValue s nbr w = Returns v w1" and ne: "hx_vref s \<noteq> hx_v0 s"
    and v: "- (2 ^ 31) \<le> sint v - sint (hx_v0 s)" "sint v - sint (hx_v0 s) < 2 ^ 31"
    and r: "- (2 ^ 31) \<le> sint (hx_vref s) - sint (hx_v0 s)"
      "sint (hx_vref s) - sint (hx_v0 s) < 2 ^ 31"
    and p: "\<bar>sint (hx_gramsRefWeight s) * (sint v - sint (hx_v0 s))\<bar> \<le> 2 ^ 45"
  define g where "g = sint (hx_gramsRefWeight s)"
  define c where "c = sint v - sint (hx_v0 s)"
  define d where "d = sint (hx_vref s) - sint (hx_v0 s)"
  define q where "q = real_of_int g * real_of_int c / real_of_int d"
  have dv: "sint (v - hx_v0 s) = c"
    unfolding c_def using v by (intro sint_diff_no_overflow) simp_all
  have dr: "sint (hx_vref s - hx_v0 s) = d"
    unfolding d_def using r by (intro sint_diff_no_overflow) simp_all
  have nz: "d \<noteq> 0"
    using ne sint_diff_eq_0_iff [of "hx_vref s" "hx_v0 s"] dr by simp
  have db: "\<bar>d\<bar> \<le> 2 ^ 31" using r unfolding d_def by linarith
  have pb: "\<bar>g * c\<bar> \<le> 2 ^ 45" using p unfolding g_def c_def .
  have wf: "weightFromCode (sint (hx_gramsRefWeight s)) (sint (hx_v0 s)) (sint (hx_vref s))
      (sint v) = round_tenths q"
    unfolding weightFromCode_def q_def g_def c_def d_def ..
  have "getWeight s nbr w =
      Returns (ddiv (dround (dmul (Finite 10)
             (ddiv (dmul (Finite (real_of_int g)) (Finite (real_of_int c)))
                (Finite (real_of_int d))))) (Finite 10)) w1"
    by (simp only: getWeight_def avg outcome.case Let_def double_of_int32_def dv dr g_def)
  then have gw: "getWeight s nbr w = Returns (round_binary64 (round_tenths q)) w1"
    unfolding weight_chain [OF nz db pb] q_def .
  have "\<bar>real_of_int (g * c) / real_of_int d\<bar> \<le> 2 ^ 100"
    by (rule quotient_bounds(2) [OF nz db pb])
  then have "\<bar>q\<bar> \<le> 2 ^ 100" unfolding q_def by simp
  from round_binary64_tenths [OF this] obtain x where
    x: "round_binary64 (round_tenths q) = Finite x"
       "\<bar>x - round_tenths q\<bar> \<le> \<bar>round_tenths q\<bar> / 2 ^ 53" by blast
  have 1: "\<exists>r. getWeight s nbr w = Returns (Finite r) w1 \<and>
      round_binary64 (round_tenths q) = Finite r \<and>
      \<bar>r - round_tenths q\<bar> \<le> \<bar>round_tenths q\<bar> / 2 ^ 53"
    using gw x by auto
  from round_tenths_nearest [of q]
  have 2: "\<bar>round_tenths q - q\<bar> \<le> 1 / 20" "\<exists>n :: int. round_tenths q = real_of_int n / 10"
    by blast+
  from 1 2 show ?thesis unfolding wf unfolding q_def g_def c_def d_def by blast
qed

lemma round_binary64_250: "round_binary64 250 = Finite 250"
  by code_simp

text \<open>
  The example of the specification: zero code 1000, reference weight 500, reference
  code 3000 and the code 2000 give 250.0.
\<close>

theorem getWeight_weightFromCode_witness:
  "getWeight (myScale\<lparr>hx_v0 := 1000, hx_vref := 3000, hx_gramsRefWeight := 500\<rparr>) 1
     \<lparr>pin_script = frame_levels (0, 0, 7, 208), millis_script = [0], serial_in = [],
      trace = []\<rparr> =
   Returns (Finite 250)
     \<lparr>pin_script = [], millis_script = [], serial_in = [],
      trace = frame_trace (myScale\<lparr>hx_v0 := 1000, hx_vref := 3000, hx_gramsRefWeight := 500\<rparr>)
                (0, 0, 7, 208)\<rparr>"
proof -
  let ?s = "myScale\<lparr>hx_v0 := 1000, hx_vref := 3000, hx_gramsRefWeight := 500\<rparr>"
  let ?w = "\<lparr>pin_script = frame_levels (0, 0, 7, 208), millis_script = [0], serial_in = [],
      trace = []\<rparr>"
  let ?w1 = "\<lparr>pin_script = [], millis_script = [], serial_in = [],
      trace = frame_trace ?s (0, 0, 7, 208)\<rparr>"
  have fv: "sample_value 0 7 208 = 2000" by (simp add: sample_value_def)
  have avg: "getAverageValue ?s 1 ?w = Returns 2000 ?w1"
    using getAverageValue_one_sample [of ?w "(0, 0, 7, 208)" 0 ?s] by (simp add: fv)
  have h1: "hx_vref ?s \<noteq> hx_v0 ?s" by simp
  have h2: "- (2 ^ 31) \<le> sint (2000 :: int32_t) - sint (hx_v0 ?s)" by simp
  have h3: "sint (2000 :: int32_t) - sint (hx_v0 ?s) < 2 ^ 31" by simp
  have h4: "- (2 ^ 31) \<le> sint (hx_vref ?s) - sint (hx_v0 ?s)" by simp
  have h5: "sint (hx_vref ?s) - sint (hx_v0 ?s) < 2 ^ 31" by simp
  have h6: "\<bar>sint (hx_gramsRefWeight ?s) * (sint (2000 :: int32_t) - sint (hx_v0 ?s))\<bar> \<le> 2 ^ 45"
    by simp
  have val: "weightFromCode 500 1000 3000 2000 = 250"
    by (simp add: weightFromCode_def round_tenths_def)
  from getWeight_weightFromCode [OF avg h1 h2 h3 h4 h5 h6, THEN conjunct1] show ?thesis
    by (auto simp add: val round_binary64_250)
qed

lemma weight_500_1_2000:
  "ddiv (dround (dmul (Finite 10)
      (ddiv (dmul (double_of_int32 500) (double_of_int32 1)) (double_of_int32 2000))))
     (Finite 10) =
   Finite (5404319552844595 / 18014398509481984)"
  by code_simp

lemma weight_56142121_7539244_3:
  "ddiv (dround (dmul (Finite 10)
      (ddiv (dmul (double_of_int32 56142121) (double_of_int32 7539244)) (double_of_int32 3))))
     (Finite 10) =
   Finite (4514870921562925 / 32)"
  by code_simp

lemma weight_wrapped:
  "ddiv (dround (dmul (Finite 10)
      (ddiv (dmul (double_of_int32 500) (double_of_int32 (- 2 - 2147483647)))
         (double_of_int32 (0 - 2147483647)))))
     (Finite 10) =
   Finite (- 500)"
  by code_simp

lemma round_binary64_spec_weight:
  "round_binary64 (1410897162988413 / 10) = Finite (2257435460781461 / 16)"
  by code_simp

text \<open>
  C2, as stated, fails in three ways. The weight of the specification is not a binary64
  number: with the zero code 1000, the reference weight 500, the reference code 3000
  and the code 1001 it is \<open>0.3\<close>, and \<open>getWeight\<close> returns the binary64 number next to
  it. Each product and quotient is rounded: with the zero code 0, the reference weight
  56142121, the reference code 3 and the code 7539244 the weight of the specification
  is \<open>141089716298841.3\<close>, whose nearest binary64 number is \<open>2257435460781461 / 16\<close>, and
  \<open>getWeight\<close> returns \<open>4514870921562925 / 32\<close>, the binary64 number nearest to
  \<open>141089716298841.4\<close>. And the driver subtracts in \<^verbatim>\<open>int32_t\<close> before it converts:
  with the zero code \<open>2^31 - 1\<close>, the reference code 0, the reference weight 500 and
  the code \<open>-2\<close>, the difference \<open>v - zeroCode\<close> wraps around and \<open>getWeight\<close> returns
  \<open>-500.0\<close>, where the formula gives \<open>500.0\<close>.
\<close>

theorem getWeight_weightFromCode_counterexample:
  "getWeight (myScale\<lparr>hx_v0 := 1000, hx_vref := 3000, hx_gramsRefWeight := 500\<rparr>) 1
     \<lparr>pin_script = frame_levels (0, 0, 3, 233), millis_script = [0], serial_in = [],
      trace = []\<rparr> =
   Returns (Finite (5404319552844595 / 18014398509481984))
     \<lparr>pin_script = [], millis_script = [], serial_in = [],
      trace = frame_trace (myScale\<lparr>hx_v0 := 1000, hx_vref := 3000, hx_gramsRefWeight := 500\<rparr>)
                (0, 0, 3, 233)\<rparr> \<and>
   sint (frame_value (0, 0, 3, 233)) = 1001 \<and>
   weightFromCode 500 1000 3000 1001 = 3 / 10 \<and>
   getWeight (myScale\<lparr>hx_vref := 3, hx_gramsRefWeight := 56142121\<rparr>) 1
     \<lparr>pin_script = frame_levels (0, 115, 10, 44), millis_script = [0], serial_in = [],
      trace = []\<rparr> =
   Returns (Finite (4514870921562925 / 32))
     \<lparr>pin_script = [], millis_script = [], serial_in = [],
      trace = frame_trace (myScale\<lparr>hx_vref := 3, hx_gramsRefWeight := 56142121\<rparr>)
                (0, 115, 10, 44)\<rparr> \<and>
   hx_v0 (myScale\<lparr>hx_vref := 3, hx_gramsRefWeight := 56142121\<rparr>) = 0 \<and>
   sint (frame_value (0, 115, 10, 44)) = 7539244 \<and>
   weightFromCode 56142121 0 3 7539244 = 1410897162988413 / 10 \<and>
   round_binary64 (weightFromCode 56142121 0 3 7539244) = Finite (2257435460781461 / 16) \<and>
   getWeight (myScale\<lparr>hx_v0 := 2147483647, hx_vref := 0, hx_gramsRefWeight := 500\<rparr>) 1
     \<lparr>pin_script = frame_levels (0, 255, 255, 254), millis_script = [0], serial_in = [],
      trace = []\<rparr> =
   Returns (Finite (- 500))
     \<lparr>pin_script = [], millis_script = [], serial_in = [],
      trace = frame_trace (myScale\<lparr>hx_v0 := 2147483647, hx_vref := 0, hx_gramsRefWeight := 500\<rparr>)
                (0, 255, 255, 254)\<rparr> \<and>
   sint (frame_value (0, 255, 255, 254)) = - 2 \<and>
   weightFromCode 500 2147483647 0 (- 2) = 500"
proof -
  let ?a = "myScale\<lparr>hx_v0 := 1000, hx_vref := 3000, hx_gramsRefWeight := 500\<rparr>"
  let ?aw = "\<lparr>pin_script = frame_levels (0, 0, 3, 233), millis_script = [0], serial_in = [],
      trace = []\<rparr>"
  let ?aw1 = "\<lparr>pin_script = [], millis_script = [], serial_in = [],
      trace = frame_trace ?a (0, 0, 3, 233)\<rparr>"
  have fa: "sample_value 0 3 233 = 1001" by (simp add: sample_value_def)
  have avga: "getAverageValue ?a 1 ?aw = Returns 1001 ?aw1"
    using getAverageValue_one_sample [of ?aw "(0, 0, 3, 233)" 0 ?a] by (simp add: fa)
  have a1: "getWeight ?a 1 ?aw = Returns (Finite (5404319552844595 / 18014398509481984)) ?aw1"
    using avga by (simp add: getWeight_def Let_def weight_500_1_2000)
  have a2: "weightFromCode 500 1000 3000 1001 = 3 / 10"
    by (simp add: weightFromCode_def round_tenths_def)
  let ?b = "myScale\<lparr>hx_vref := 3, hx_gramsRefWeight := 56142121\<rparr>"
  let ?bw = "\<lparr>pin_script = frame_levels (0, 115, 10, 44), millis_script = [0], serial_in = [],
      trace = []\<rparr>"
  let ?bw1 = "\<lparr>pin_script = [], millis_script = [], serial_in = [],
      trace = frame_trace ?b (0, 115, 10, 44)\<rparr>"
  have fb: "sample_value 115 10 44 = 7539244" by code_simp
  have b0: "hx_v0 ?b = 0" by (simp add: myScale_def new_HX711_GSR_def)
  have avgb: "getAverageValue ?b 1 ?bw = Returns 7539244 ?bw1"
    using getAverageValue_one_sample [of ?bw "(0, 115, 10, 44)" 0 ?b] by (simp add: fb)
  have b1: "getWeight ?b 1 ?bw = Returns (Finite (4514870921562925 / 32)) ?bw1"
    using avgb by (simp add: getWeight_def Let_def b0 weight_56142121_7539244_3)
  have b2: "weightFromCode 56142121 0 3 7539244 = 1410897162988413 / 10"
    by (simp add: weightFromCode_def round_tenths_def)
  have b3: "round_binary64 (weightFromCode 56142121 0 3 7539244) =
      Finite (2257435460781461 / 16)"
    unfolding b2 by (rule round_binary64_spec_weight)
  let ?c = "myScale\<lparr>hx_v0 := 2147483647, hx_vref := 0, hx_gramsRefWeight := 500\<rparr>"
  let ?cw = "\<lparr>pin_script = frame_levels (0, 255, 255, 254), millis_script = [0], serial_in = [],
      trace = []\<rparr>"
  let ?cw1 = "\<lparr>pin_script = [], millis_script = [], serial_in = [],
      trace = frame_trace ?c (0, 255, 255, 254)\<rparr>"
  have fc: "sample_value 255 255 254 = - 2" by code_simp
  have avgc: "getAverageValue ?c 1 ?cw = Returns (- 2) ?cw1"
    using getAverageValue_one_sample [of ?cw "(0, 255, 255, 254)" 0 ?c] by (simp add: fc)
  have sel: "hx_v0 ?c = 2147483647" "hx_vref ?c = 0" "hx_gramsRefWeight ?c = 500" by simp_all
  have c1: "getWeight ?c 1 ?cw = Returns (Finite (- 500)) ?cw1"
    by (simp only: getWeight_def avgc outcome.case Let_def sel weight_wrapped)
  have c2: "weightFromCode 500 2147483647 0 (- 2) = 500"
    by (simp add: weightFromCode_def round_tenths_def)
  have f: "sint (frame_value (0, 0, 3, 233)) = 1001"
    "sint (frame_value (0, 115, 10, 44)) = 7539244"
    "sint (frame_value (0, 255, 255, 254)) = - 2"
    by (simp_all add: fa fb fc)
  from a1 a2 b0 b1 b2 b3 c1 c2 f show ?thesis by (simp only: simp_thms)
qed

text \<open>
  C5, as the code has it. \<open>calibrate\<close> and \<open>getWeight\<close> do not check
  \<open>refCode = zeroCode\<close> and report no error: whenever the averaging returns, they
  return. The slope and the intercept that \<open>calibrate\<close> stores are finite exactly when
  the new reference code differs from the zero code, and the weight is finite exactly
  when \<open>refCode \<noteq> zeroCode\<close>; otherwise the division by zero has been executed and
  has given an infinity or NaN.
\<close>

theorem division_by_zero_not_detected:
  "getAverageValue s nbr w = Returns v w1 \<Longrightarrow>
   (\<exists>m s'. calibrate s nbr w = Returns (m, s') w1 \<and> hx_vref s' = v \<and> hx_m s' = m \<and>
      (is_finite (hx_m s') \<longleftrightarrow> v \<noteq> hx_v0 s) \<and>
      (is_finite (hx_b s') \<longleftrightarrow> v \<noteq> hx_v0 s)) \<and>
   (\<exists>x. getWeight s nbr w = Returns x w1 \<and> (is_finite x \<longleftrightarrow> hx_vref s \<noteq> hx_v0 s))"
proof -
  assume avg: "getAverageValue s nbr w = Returns v w1"
  have d: "v - hx_v0 s = 0 \<longleftrightarrow> v = hx_v0 s" "hx_vref s - hx_v0 s = 0 \<longleftrightarrow> hx_vref s = hx_v0 s"
    by simp_all
  have 1: "\<exists>m s'. calibrate s nbr w = Returns (m, s') w1 \<and> hx_vref s' = v \<and> hx_m s' = m \<and>
      (is_finite (hx_m s') \<longleftrightarrow> v \<noteq> hx_v0 s) \<and>
      (is_finite (hx_b s') \<longleftrightarrow> v \<noteq> hx_v0 s)"
    unfolding calibrate_after_average [OF avg]
    by (simp add: is_finite_slope is_finite_intercept)
  have 2: "\<exists>x. getWeight s nbr w = Returns x w1 \<and> (is_finite x \<longleftrightarrow> hx_vref s \<noteq> hx_v0 s)"
    using avg unfolding getWeight_def
    by (simp add: Let_def is_finite_weight)
  from 1 2 show ?thesis by blast
qed

theorem division_by_zero_not_detected_witness:
  "(\<exists>m s'. calibrate (myScale\<lparr>hx_v0 := 1000, hx_vref := 1000, hx_gramsRefWeight := 500\<rparr>) 1
       \<lparr>pin_script = frame_levels (0, 0, 7, 208), millis_script = [0], serial_in = [],
        trace = []\<rparr> =
      Returns (m, s')
        \<lparr>pin_script = [], millis_script = [], serial_in = [],
         trace = frame_trace (myScale\<lparr>hx_v0 := 1000, hx_vref := 1000, hx_gramsRefWeight := 500\<rparr>)
                   (0, 0, 7, 208)\<rparr> \<and>
      is_finite (hx_m s') \<and> is_finite (hx_b s')) \<and>
   (\<exists>x. getWeight (myScale\<lparr>hx_v0 := 1000, hx_vref := 1000, hx_gramsRefWeight := 500\<rparr>) 1
       \<lparr>pin_script = frame_levels (0, 0, 7, 208), millis_script = [0], serial_in = [],
        trace = []\<rparr> =
      Returns x
        \<lparr>pin_script = [], millis_script = [], serial_in = [],
         trace = frame_trace (myScale\<lparr>hx_v0 := 1000, hx_vref := 1000, hx_gramsRefWeight := 500\<rparr>)
                   (0, 0, 7, 208)\<rparr> \<and>
      \<not> is_finite x)"
proof -
  let ?s = "myScale\<lparr>hx_v0 := 1000, hx_vref := 1000, hx_gramsRefWeight := 500\<rparr>"
  let ?w = "\<lparr>pin_script = frame_levels (0, 0, 7, 208), millis_script = [0], serial_in = [],
      trace = []\<rparr>"
  let ?w1 = "\<lparr>pin_script = [], millis_script = [], serial_in = [],
      trace = frame_trace ?s (0, 0, 7, 208)\<rparr>"
  have fv: "sample_value 0 7 208 = 2000" by (simp add: sample_value_def)
  have avg: "getAverageValue ?s 1 ?w = Returns 2000 ?w1"
    using getAverageValue_one_sample [of ?w "(0, 0, 7, 208)" 0 ?s] by (simp add: fv)
  from division_by_zero_not_detected [OF avg] show ?thesis by auto
qed

text \<open>
  C5, as stated, fails: with the zero code 1000 and a reference reading of 1000,
  \<open>calibrate\<close> returns an infinite slope and stores it with an infinite intercept;
  with \<open>refCode = zeroCode = 1000\<close>, \<open>getWeight\<close> returns an infinite weight. No
  error is reported.
\<close>

theorem division_by_zero_not_detected_counterexample:
  "calibrate (myScale\<lparr>hx_v0 := 1000, hx_gramsRefWeight := 500\<rparr>) 1
     \<lparr>pin_script = frame_levels (0, 0, 3, 232), millis_script = [0], serial_in = [],
      trace = []\<rparr> =
   Returns (PosInf, myScale\<lparr>hx_v0 := 1000, hx_vref := 1000, hx_gramsRefWeight := 500,
                      hx_b := NegInf, hx_m := PosInf\<rparr>)
     \<lparr>pin_script = [], millis_script = [], serial_in = [],
      trace = frame_trace (myScale\<lparr>hx_v0 := 1000, hx_gramsRefWeight := 500\<rparr>) (0, 0, 3, 232)\<rparr> \<and>
   getWeight (myScale\<lparr>hx_v0 := 1000, hx_vref := 1000, hx_gramsRefWeight := 500\<rparr>) 1
     \<lparr>pin_script = frame_levels (0, 0, 7, 208), millis_script = [0], serial_in = [],
      trace = []\<rparr> =
   Returns PosInf
     \<lparr>pin_script = [], millis_script = [], serial_in = [],
      trace = frame_trace (myScale\<lparr>hx_v0 := 1000, hx_vref := 1000, hx_gramsRefWeight := 500\<rparr>)
                (0, 0, 7, 208)\<rparr>"
proof -
  let ?s = "myScale\<lparr>hx_v0 := 1000, hx_gramsRefWeight := 500\<rparr>"
  let ?w = "\<lparr>pin_script = frame_levels (0, 0, 3, 232), millis_script = [0], serial_in = [],
      trace = []\<rparr>"
  let ?w1 = "\<lparr>pin_script = [], millis_script = [], serial_in = [],
      trace = frame_trace ?s (0, 0, 3, 232)\<rparr>"
  have fv: "sample_value 0 3 232 = 1000" by (simp add: sample_value_def)
  have avg: "getAverageValue ?s 1 ?w = Returns 1000 ?w1"
    using getAverageValue_one_sample [of ?w "(0, 0, 3, 232)" 0 ?s] by (simp add: fv)
  have 1: "calibrate ?s 1 ?w =
     Returns (PosInf, myScale\<lparr>hx_v0 := 1000, hx_vref := 1000, hx_gramsRefWeight := 500,
                      hx_b := NegInf, hx_m := PosInf\<rparr>) ?w1"
    unfolding calibrate_after_average [OF avg]
    by (simp add: double_of_int32_def inf_of_sign_def round_binary64_m500000)
  let ?s2 = "myScale\<lparr>hx_v0 := 1000, hx_vref := 1000, hx_gramsRefWeight := 500\<rparr>"
  let ?v = "\<lparr>pin_script = frame_levels (0, 0, 7, 208), millis_script = [0], serial_in = [],
      trace = []\<rparr>"
  let ?v1 = "\<lparr>pin_script = [], millis_script = [], serial_in = [],
      trace = frame_trace ?s2 (0, 0, 7, 208)\<rparr>"
  have fv2: "sample_value 0 7 208 = 2000" by (simp add: sample_value_def)
  have avg2: "getAverageValue ?s2 1 ?v = Returns 2000 ?v1"
    using getAverageValue_one_sample [of ?v "(0, 0, 7, 208)" 0 ?s2] by (simp add: fv2)
  have 2: "getWeight ?s2 1 ?v = Returns PosInf ?v1"
    using avg2
    by (simp add: getWeight_def double_of_int32_def inf_of_sign_def Let_def
        round_binary64_500000)
  from 1 2 show ?thesis by simp
qed














text \<open>
  C10. When the command \<open>calibrate\<close> has passed its two preconditions and the slope
  it gets is greater than 1 in absolute value, it prints its error, and the object it
  leaves holds the new reference code, slope and intercept of \<open>calibrate(16)\<close>: the
  error path does not restore the state.
\<close>

theorem loadCell_calibrate_not_atomic:
  "0 \<le> sint (hx_gramsRefWeight s) \<Longrightarrow> hx_v0 s \<noteq> 0 \<Longrightarrow>
   getAverageValue s 16 w = Returns v w1 \<Longrightarrow>
   dgreater (fabs (ddiv (double_of_int32 (hx_gramsRefWeight s))
                     (double_of_int32 (v - hx_v0 s)))) (Finite 1) \<Longrightarrow>
   loadCell_calibrate s w =
     Returns (s\<lparr>hx_vref := v,
                hx_b := ddiv (dmul (double_of_int32 (- hx_gramsRefWeight s))
                                (double_of_int32 (hx_v0 s)))
                          (double_of_int32 (v - hx_v0 s)),
                hx_m := ddiv (double_of_int32 (hx_gramsRefWeight s))
                          (double_of_int32 (v - hx_v0 s))\<rparr>)
       (w1\<lparr>trace := trace w1 @ [SerialPrint ''First Calibrate with Reference Weight '' []]\<rparr>)"
proof -
  assume pre: "0 \<le> sint (hx_gramsRefWeight s)" "hx_v0 s \<noteq> 0"
    and avg: "getAverageValue s 16 w = Returns v w1"
    and big: "dgreater (fabs (ddiv (double_of_int32 (hx_gramsRefWeight s))
                     (double_of_int32 (v - hx_v0 s)))) (Finite 1)"
  from pre have p: "\<not> sint (get_wref s) < 0" "get_v0 s \<noteq> 0"
    by (simp_all add: get_wref_def get_v0_def)
  show ?thesis
    unfolding loadCell_calibrate_def
    by (simp only: p if_False calibrate_after_average [OF avg] outcome.case prod.case)
       (simp add: get_m_def big Serial_print_def emit_def)
qed

theorem loadCell_calibrate_not_atomic_witness:
  "loadCell_calibrate (myScale\<lparr>hx_v0 := 1000, hx_gramsRefWeight := 500\<rparr>)
     \<lparr>pin_script = concat (map frame_levels (replicate 16 (0, 0, 4, 76))),
      millis_script = replicate 16 0, serial_in = [], trace = []\<rparr> =
   Returns (myScale\<lparr>hx_v0 := 1000, hx_vref := 1100, hx_gramsRefWeight := 500,
                    hx_b := Finite (- 5000), hx_m := Finite 5\<rparr>)
     \<lparr>pin_script = [], millis_script = [], serial_in = [],
      trace = concat (map (frame_trace (myScale\<lparr>hx_v0 := 1000, hx_gramsRefWeight := 500\<rparr>))
                 (replicate 16 (0, 0, 4, 76))) @
              [SerialPrint ''First Calibrate with Reference Weight '' []]\<rparr> \<and>
   hx_vref (myScale\<lparr>hx_v0 := 1000, hx_gramsRefWeight := 500\<rparr>) = 0 \<and>
   hx_b (myScale\<lparr>hx_v0 := 1000, hx_gramsRefWeight := 500\<rparr>) = Finite 0 \<and>
   hx_m (myScale\<lparr>hx_v0 := 1000, hx_gramsRefWeight := 500\<rparr>) = Finite 0"
proof -
  let ?s = "myScale\<lparr>hx_v0 := 1000, hx_gramsRefWeight := 500\<rparr>"
  let ?fs = "replicate 16 (0, 0, 4, 76) :: frame list"
  let ?w = "\<lparr>pin_script = concat (map frame_levels ?fs),
      millis_script = replicate 16 0, serial_in = [], trace = []\<rparr>"
  let ?w1 = "\<lparr>pin_script = [], millis_script = [], serial_in = [],
      trace = concat (map (frame_trace ?s) ?fs)\<rparr>"
  have h1: "(16 :: uint8_t) \<noteq> 0" by simp
  have h2: "length ?fs = unat (16 :: uint8_t)" by simp
  have h3: "pin_script ?w = concat (map frame_levels ?fs) @ []" by simp
  have h4: "unat (16 :: uint8_t) \<le> hits (millis_script ?w)" by (simp add: hits_def)
  have fv: "sample_value 0 4 76 = 1100" by (simp add: sample_value_def)
  have "int32_div 17600 16 = 1100" by (simp add: int32_div_def signed_divide_int_def)
  then have val: "int32_div (sum_list (map frame_value ?fs)) (ucast (16 :: uint8_t)) = 1100"
    by (simp add: fv sum_list_replicate)
  have "after_hits 16 (replicate 16 0) = []" by code_simp
  then have ah: "after_hits (unat (16 :: uint8_t)) (millis_script ?w) = []" by simp
  have avg: "getAverageValue ?s 16 ?w = Returns 1100 ?w1"
    using getAverageValue_frames [OF h1 h2 h3 h4, of ?s] unfolding val ah by simp
  have g1: "0 \<le> sint (hx_gramsRefWeight ?s)" by simp
  have g2: "hx_v0 ?s \<noteq> 0" by simp
  have g3: "dgreater (fabs (ddiv (double_of_int32 (hx_gramsRefWeight ?s))
                     (double_of_int32 (1100 - hx_v0 ?s)))) (Finite 1)"
    by (simp add: double_of_int32_def round_binary64_5)
  from loadCell_calibrate_not_atomic [OF g1 g2 avg g3] show ?thesis
    by (simp add: double_of_int32_def myScale_def new_HX711_GSR_def round_binary64_5
        round_binary64_m500000 round_binary64_m5000)
qed

end
